theory Spec2Isabelle
  imports Complex_Main "HOL-Library.Word" "HOL-Library.Extended_Nat"
    "HOL-Library.Product_Lexorder"
begin

text \<open>
  A shallow embedding of the core of the repository: the block cache over a remote file
  (\<open>VirtualLRUBuffer\<close>, \<open>CachedFilelike\<close>), the bag adapter (\<open>BagIterableSource\<close>) and the
  playback state machine (\<open>RosbagPlayer\<close>). JavaScript numbers that hold byte offsets,
  sizes and times are integers here; a method that can throw returns a sum, with the
  error on the left, next to the state it leaves behind.
\<close>

section \<open>Byte ranges (ranges.ts and the interval library it calls)\<close>

text \<open>
  Modelled from the spec: \<open>simplify\<close>, \<open>unify\<close>, \<open>substract\<close>, \<open>isBefore\<close> and \<open>isDuring\<close>
  are functions of the library intervals-fn, which is not part of the repository. The
  spec's RangeSet: a range \<open>[start, end)\<close> is half-open; a range set is a canonical list of
  disjoint ranges sorted by start, merged when adjacent or overlapping, without empty
  ranges; the union is the canonical merged result and the subtraction the canonical set
  of the bytes of the first that are not in the second. \<open>isBefore a b\<close> says that \<open>a\<close>
  ends where \<open>b\<close> starts or earlier, \<open>isDuring a b\<close> that \<open>a\<close> lies within \<open>b\<close>.
  \<open>isRangeCoveredByRanges\<close> is the function of ranges.ts.
\<close>

record Range =
  range_start :: int
  range_end :: int

definition mkRange :: "int \<Rightarrow> int \<Rightarrow> Range" where
  "mkRange a b = \<lparr>range_start = a, range_end = b\<rparr>"

definition isBefore :: "Range \<Rightarrow> Range \<Rightarrow> bool" where
  "isBefore a b = (range_end a \<le> range_start b)"

definition isDuring :: "Range \<Rightarrow> Range \<Rightarrow> bool" where
  "isDuring a b = (range_start b \<le> range_start a \<and> range_end a \<le> range_end b)"

fun mergeFrom :: "Range \<Rightarrow> Range list \<Rightarrow> Range list" where
  "mergeFrom cur [] = [cur]"
| "mergeFrom cur (b # rs) =
     (if range_start b \<le> range_end cur
      then mergeFrom (cur\<lparr>range_end := max (range_end cur) (range_end b)\<rparr>) rs
      else cur # mergeFrom b rs)"

definition simplify :: "Range list \<Rightarrow> Range list" where
  "simplify rs =
     (case sort_key range_start (filter (\<lambda>r. range_start r < range_end r) rs) of
        [] \<Rightarrow> []
      | r # rest \<Rightarrow> mergeFrom r rest)"

definition unify :: "Range list \<Rightarrow> Range list \<Rightarrow> Range list" where
  "unify as bs = simplify (as @ bs)"

definition substractOne :: "Range \<Rightarrow> Range \<Rightarrow> Range list" where
  "substractOne m r =
     (if range_end r \<le> range_start m \<or> range_end m \<le> range_start r then [r]
      else (if range_start r < range_start m then [mkRange (range_start r) (range_start m)] else [])
         @ (if range_end m < range_end r then [mkRange (range_end m) (range_end r)] else []))"

definition substract :: "Range list \<Rightarrow> Range list \<Rightarrow> Range list" where
  "substract base maskRanges =
     simplify (fold (\<lambda>m acc. concat (map (substractOne m) acc)) maskRanges base)"

fun isRangeCoveredByRanges :: "Range \<Rightarrow> Range list \<Rightarrow> bool" where
  "isRangeCoveredByRanges queryRange [] = False"
| "isRangeCoveredByRanges queryRange (r # rs) =
     (if isBefore queryRange r then False
      else if isDuring queryRange r then True
      else isRangeCoveredByRanges queryRange rs)"

text \<open>The bytes that a list of ranges covers.\<close>

definition bytesOf :: "Range list \<Rightarrow> int set" where
  "bytesOf rs = (\<Union>r \<in> set rs. {range_start r ..< range_end r})"

text \<open>
  The canonical form of a range set: no empty range, sorted, and no two ranges overlap or
  touch.
\<close>

definition canonical :: "Range list \<Rightarrow> bool" where
  "canonical rs \<longleftrightarrow>
     list_all (\<lambda>r. range_start r < range_end r) rs \<and>
     sorted_wrt (\<lambda>a b. range_end a < range_start b) rs"

section \<open>VirtualLRUBuffer.ts\<close>

type_synonym byte = "8 word"

text \<open>
  Every \<open>throw new Error(...)\<close> of the downloader, the parser adapter and the player is one
  constructor; \<open>ExternalError\<close> stands for an error object that comes from outside (a
  stream error, a failed open, a failing data source).
\<close>

datatype error =
    CopyFromInvalidInput
  | SliceInvalidInput
  | SliceNoData
  | BlockInvariantViolated
  | CalculatePositionInvalidInput
  | ReadInvalidInput
  | ReadExceedsCacheSize
  | NotOpened
  | ReadExceedsFileSize
  | ExternalError string
  | DataSourceNotInitialized
  | CannotSetListenerAgain
  | Invariant string

definition kMaxLength :: int where
  "kMaxLength = 2 ^ 32"

record VirtualLRUBuffer =
  byteLength :: int
  blocks :: "int \<Rightarrow> byte list option"
  blockSize :: int
  numberOfBlocks :: enat
  lastAccessedBlockIndices :: "int list"
  rangesWithData :: "Range list"

definition newVirtualLRUBuffer :: "int \<Rightarrow> int option \<Rightarrow> nat option \<Rightarrow> VirtualLRUBuffer" where
  "newVirtualLRUBuffer sz bs nb =
     \<lparr>byteLength = sz,
      blocks = (\<lambda>_. None),
      blockSize = (case bs of None \<Rightarrow> kMaxLength div 2 | Some b \<Rightarrow> b),
      numberOfBlocks = (case nb of None \<Rightarrow> \<infinity> | Some n \<Rightarrow> enat n),
      lastAccessedBlockIndices = [],
      rangesWithData = []\<rparr>"

definition hasData :: "VirtualLRUBuffer \<Rightarrow> int \<Rightarrow> int \<Rightarrow> bool" where
  "hasData s a b = isRangeCoveredByRanges (mkRange a b) (rangesWithData s)"

definition getRangesWithData :: "VirtualLRUBuffer \<Rightarrow> Range list" where
  "getRangesWithData s = rangesWithData s"

definition copy :: "byte list \<Rightarrow> byte list \<Rightarrow> nat \<Rightarrow> nat \<Rightarrow> byte list" where
  "copy source target targetStart sourceStart =
     fold (\<lambda>i t. t[targetStart + i := source ! (sourceStart + i)])
          [0 ..< length source - sourceStart] target"

definition newBlockSize :: "VirtualLRUBuffer \<Rightarrow> int \<Rightarrow> int" where
  "newBlockSize s index =
     (if (index + 1) * blockSize s > byteLength s then byteLength s mod blockSize s
      else blockSize s)"

definition getBlock :: "VirtualLRUBuffer \<Rightarrow> int \<Rightarrow> (error + byte list) \<times> VirtualLRUBuffer" where
  "getBlock s index =
     (let s1 = (if blocks s index = None
                then s\<lparr>blocks := (blocks s)(index \<mapsto> replicate (nat (newBlockSize s index)) 0)\<rparr>
                else s);
          s2 = s1\<lparr>lastAccessedBlockIndices :=
                     filter (\<lambda>idx. idx \<noteq> index) (lastAccessedBlockIndices s1) @ [index]\<rparr>;
          s3 = (if numberOfBlocks s2 < enat (length (lastAccessedBlockIndices s2))
                then (case lastAccessedBlockIndices s2 of
                        [] \<Rightarrow> s2
                      | deleteIndex # rest \<Rightarrow>
                          s2\<lparr>lastAccessedBlockIndices := rest,
                             blocks := (blocks s2)(deleteIndex := None),
                             rangesWithData :=
                               simplify (substract (rangesWithData s2)
                                 [mkRange (deleteIndex * blockSize s2)
                                          ((deleteIndex + 1) * blockSize s2)])\<rparr>)
                else s2)
      in case blocks s3 index of
           None \<Rightarrow> (Inl BlockInvariantViolated, s3)
         | Some block \<Rightarrow> (Inr block, s3))"

definition calculatePosition ::
  "VirtualLRUBuffer \<Rightarrow> int \<Rightarrow> (error + int \<times> int \<times> int) \<times> VirtualLRUBuffer" where
  "calculatePosition s position =
     (if position < 0 \<or> position \<ge> byteLength s then (Inl CalculatePositionInvalidInput, s)
      else
        let blockIndex = position div blockSize s;
            positionInBlock = position - blockIndex * blockSize s
        in case getBlock s blockIndex of
             (Inl e, s1) \<Rightarrow> (Inl e, s1)
           | (Inr block, s1) \<Rightarrow>
               (Inr (blockIndex, positionInBlock, int (length block) - positionInBlock), s1))"

partial_function (option) copyFromLoop ::
  "byte list \<Rightarrow> int \<Rightarrow> int \<Rightarrow> int \<Rightarrow> VirtualLRUBuffer \<Rightarrow> ((error + unit) \<times> VirtualLRUBuffer) option"
where
  "copyFromLoop source targetStart rangeEnd position s =
     (if position < rangeEnd then
        (case calculatePosition s position of
           (Inl e, s1) \<Rightarrow> Some (Inl e, s1)
         | (Inr (blockIndex, positionInBlock, remainingBytesInBlock), s1) \<Rightarrow>
             (case getBlock s1 blockIndex of
                (Inl e, s2) \<Rightarrow> Some (Inl e, s2)
              | (Inr block, s2) \<Rightarrow>
                  copyFromLoop source targetStart rangeEnd (position + remainingBytesInBlock)
                    (s2\<lparr>blocks := (blocks s2)(blockIndex \<mapsto>
                          copy source block (nat positionInBlock) (nat (position - targetStart)))\<rparr>)))
      else Some (Inr (), s))"

declare copyFromLoop.simps [code]

definition copyFrom ::
  "VirtualLRUBuffer \<Rightarrow> byte list \<Rightarrow> int \<Rightarrow> ((error + unit) \<times> VirtualLRUBuffer) option" where
  "copyFrom s source targetStart =
     (if targetStart < 0 \<or> targetStart \<ge> byteLength s then Some (Inl CopyFromInvalidInput, s)
      else
        let rng = mkRange targetStart (targetStart + int (length source))
        in case copyFromLoop source targetStart (range_end rng) (range_start rng) s of
             None \<Rightarrow> None
           | Some (Inl e, s1) \<Rightarrow> Some (Inl e, s1)
           | Some (Inr u, s1) \<Rightarrow>
               Some (Inr (), s1\<lparr>rangesWithData := simplify (unify [rng] (rangesWithData s1))\<rparr>))"

partial_function (option) sliceLoop ::
  "int \<Rightarrow> int \<Rightarrow> int \<Rightarrow> byte list \<Rightarrow> VirtualLRUBuffer \<Rightarrow> ((error + byte list) \<times> VirtualLRUBuffer) option"
where
  "sliceLoop start endPos position result s =
     (if position < endPos then
        (case calculatePosition s position of
           (Inl e, s1) \<Rightarrow> Some (Inl e, s1)
         | (Inr (blockIndex, positionInBlock, remainingBytesInBlock), s1) \<Rightarrow>
             (case getBlock s1 blockIndex of
                (Inl e, s2) \<Rightarrow> Some (Inl e, s2)
              | (Inr block, s2) \<Rightarrow>
                  sliceLoop start endPos (position + remainingBytesInBlock)
                    (copy block result (nat (position - start)) (nat positionInBlock)) s2))
      else Some (Inr result, s))"

declare sliceLoop.simps [code]

definition slice ::
  "VirtualLRUBuffer \<Rightarrow> int \<Rightarrow> int \<Rightarrow> ((error + byte list) \<times> VirtualLRUBuffer) option" where
  "slice s start endPos =
     (let sz = endPos - start in
      if start < 0 \<or> endPos > byteLength s \<or> sz \<le> 0 \<or> sz > kMaxLength
      then Some (Inl SliceInvalidInput, s)
      else if \<not> hasData s start endPos then Some (Inl SliceNoData, s)
      else
        case calculatePosition s start of
          (Inl e, s1) \<Rightarrow> Some (Inl e, s1)
        | (Inr (blockIndex, positionInBlock, remainingBytesInBlock), s1) \<Rightarrow>
            if sz \<le> remainingBytesInBlock then
              (case getBlock s1 blockIndex of
                 (Inl e, s2) \<Rightarrow> Some (Inl e, s2)
               | (Inr block, s2) \<Rightarrow>
                   Some (Inr (take (nat sz) (drop (nat positionInBlock) block)), s2))
            else sliceLoop start endPos start (replicate (nat sz) 0) s1)"

text \<open>
  The logical ranges \<open>[k * B, (k + 1) * B)\<close> of the resident blocks, and the invariant that
  the comment of \<open>#rangesWithData\<close> states: the filled ranges were copied and not evicted.
\<close>

definition residentBytes :: "VirtualLRUBuffer \<Rightarrow> int set" where
  "residentBytes s =
     (\<Union>k \<in> {k. blocks s k \<noteq> None}. {k * blockSize s ..< (k + 1) * blockSize s})"

definition filledWithinResident :: "VirtualLRUBuffer \<Rightarrow> bool" where
  "filledWithinResident s = (bytesOf (rangesWithData s) \<subseteq> residentBytes s)"

text \<open>
  The states the class can reach: blocks are as long as \<open>#getBlock\<close> allocates them, the
  access list has no duplicates and is no longer than the configured number of blocks.
\<close>

definition wellFormed :: "VirtualLRUBuffer \<Rightarrow> bool" where
  "wellFormed s \<longleftrightarrow>
     0 < blockSize s \<and>
     distinct (lastAccessedBlockIndices s) \<and>
     enat (length (lastAccessedBlockIndices s)) \<le> numberOfBlocks s \<and>
     (\<forall>k b. blocks s k = Some b \<longrightarrow> int (length b) = newBlockSize s k)"

text \<open>
  The byte stored for logical position \<open>j\<close>, when its block is resident and recorded
  in the access list.
\<close>

definition byteAt :: "VirtualLRUBuffer \<Rightarrow> int \<Rightarrow> byte option" where
  "byteAt s j =
     (let k = j div blockSize s in
      case blocks s k of
        None \<Rightarrow> None
      | Some b \<Rightarrow>
          if k \<in> set (lastAccessedBlockIndices s) \<and> nat (j - k * blockSize s) < length b
          then Some (b ! nat (j - k * blockSize s)) else None)"

text \<open>The number of blocks that a write of \<open>n\<close> bytes at \<open>targetStart\<close> touches.\<close>

definition blocksTouched :: "VirtualLRUBuffer \<Rightarrow> int \<Rightarrow> int \<Rightarrow> nat" where
  "blocksTouched s targetStart n =
     nat ((targetStart + n - 1) div blockSize s - targetStart div blockSize s + 1)"

section \<open>CachedFilelike/index.ts\<close>

definition CACHE_BLOCK_SIZE :: int where
  "CACHE_BLOCK_SIZE = 1024 * 1024 * 100"

definition CLOSE_ENOUGH_BYTES_TO_NOT_START_NEW_CONNECTION :: int where
  "CLOSE_ENOUGH_BYTES_TO_NOT_START_NEW_CONNECTION = 1024 * 1024 * 5"

text \<open>
  A read request holds the \<open>resolve\<close>/\<open>reject\<close> pair of one promise; the model names the
  promise by a number and logs every call of \<open>resolve\<close> and \<open>reject\<close> in \<open>settlements\<close>
  (for a promise settled twice, the first entry counts, as in JavaScript).
\<close>

record ReadRequest =
  request_range :: Range
  promise :: nat
  requestTime :: int

datatype settlement = Resolved "byte list" | Rejected error

text \<open>
  The current connection. \<open>requestedRange\<close> and \<open>bytesRead\<close> are the variables \<open>range\<close>
  and \<open>bytesRead\<close> that the stream's handlers close over in \<open>#setConnection\<close>.
\<close>

record Connection =
  stream :: nat
  remainingRange :: Range
  requestedRange :: Range
  bytesRead :: int

record CachedFilelike =
  fileSize :: "int option"
  cacheSizeInBytes :: enat
  virtualBuffer :: VirtualLRUBuffer
  readRequests :: "ReadRequest list"
  lastResolvedCallbackEnd :: "int option"
  keepReconnectingCallback :: bool
  lastErrorTime :: "int option"
  closed :: bool
  currentConnection :: "Connection option"
  settlements :: "(nat \<times> settlement) list"
  nextPromise :: nat
  fetched :: "(int \<times> int) list"
  destroyedStreams :: "nat list"
  reconnectCalls :: "bool list"

text \<open>
  The constructor takes only \<open>fileReader\<close> and \<open>cacheSizeInBytes\<close>: no reconnect callback
  can be configured, \<open>#keepReconnectingCallback\<close> stays undefined.
\<close>

definition newCachedFilelike :: "enat option \<Rightarrow> CachedFilelike" where
  "newCachedFilelike cacheSize =
     \<lparr>fileSize = None,
      cacheSizeInBytes = (case cacheSize of None \<Rightarrow> \<infinity> | Some c \<Rightarrow> c),
      virtualBuffer = newVirtualLRUBuffer 0 None None,
      readRequests = [],
      lastResolvedCallbackEnd = None,
      keepReconnectingCallback = False,
      lastErrorTime = None,
      closed = False,
      currentConnection = None,
      settlements = [],
      nextPromise = 0,
      fetched = [],
      destroyedStreams = [],
      reconnectCalls = []\<rparr>"

text \<open>
  \<open>open()\<close>; \<open>readerOpen\<close> is what \<open>fileReader.open()\<close> answers (an error or the size).
\<close>

definition open_cf :: "(error + int) \<Rightarrow> CachedFilelike \<Rightarrow> (error + unit) \<times> CachedFilelike" where
  "open_cf readerOpen s =
     (if fileSize s \<noteq> None then (Inr (), s)
      else case readerOpen of
             Inl e \<Rightarrow> (Inl e, s)
           | Inr sz \<Rightarrow>
               (Inr (),
                s\<lparr>fileSize := Some sz,
                  virtualBuffer :=
                    (case cacheSizeInBytes s of
                       \<infinity> \<Rightarrow> newVirtualLRUBuffer sz None None
                     | enat c \<Rightarrow>
                         if sz \<le> int c then newVirtualLRUBuffer sz None None
                         else newVirtualLRUBuffer sz (Some CACHE_BLOCK_SIZE)
                                (Some (nat ((int c + CACHE_BLOCK_SIZE - 1) div CACHE_BLOCK_SIZE)
                                       + 2)))\<rparr>))"

text \<open>\<open>size()\<close> throws when \<open>#fileSize\<close> is falsy: undefined or zero.\<close>

definition size_cf :: "CachedFilelike \<Rightarrow> error + int" where
  "size_cf s = (case fileSize s of
                  None \<Rightarrow> Inl NotOpened
                | Some n \<Rightarrow> if n = 0 then Inl NotOpened else Inr n)"

text \<open>
  The arguments of \<open>getNewConnection\<close>. The function itself (getNewConnection.ts) is not
  among the sources, so the operations below take it as the parameter \<open>gnc\<close>.
\<close>

record NewConnectionArgs =
  currentRemainingRange :: "Range option"
  readRequestRange :: "Range option"
  downloadedRanges :: "Range list"
  lastResolvedEnd :: "int option"
  maxRequestSize :: enat
  argFileSize :: int
  continueDownloadingThreshold :: int

text \<open>
  The \<open>filter\<close> callback of \<open>#updateState\<close>: a request covered by the buffer is sliced out
  and resolved, the others are kept. When \<open>slice\<close> throws, the exception leaves the filter.
\<close>

fun resolveCacheHits ::
  "ReadRequest list \<Rightarrow> CachedFilelike \<Rightarrow> ((error + ReadRequest list) \<times> CachedFilelike) option"
where
  "resolveCacheHits [] s = Some (Inr [], s)"
| "resolveCacheHits (r # rs) s =
     (if \<not> hasData (virtualBuffer s) (range_start (request_range r)) (range_end (request_range r))
      then (case resolveCacheHits rs s of
              None \<Rightarrow> None
            | Some (Inl e, s1) \<Rightarrow> Some (Inl e, s1)
            | Some (Inr kept, s1) \<Rightarrow> Some (Inr (r # kept), s1))
      else
        let s1 = s\<lparr>lastResolvedCallbackEnd := Some (range_end (request_range r))\<rparr> in
        case slice (virtualBuffer s1) (range_start (request_range r)) (range_end (request_range r)) of
          None \<Rightarrow> None
        | Some (Inl e, vb) \<Rightarrow> Some (Inl e, s1\<lparr>virtualBuffer := vb\<rparr>)
        | Some (Inr buffer, vb) \<Rightarrow>
            resolveCacheHits rs
              (s1\<lparr>virtualBuffer := vb,
                  settlements := settlements s1 @ [(promise r, Resolved buffer)]\<rparr>))"

text \<open>
  \<open>#setConnection(range)\<close>: destroy the current stream, fetch a new one (streams are
  numbered in the order they are fetched) and make it the current connection.
\<close>

definition setConnection :: "Range \<Rightarrow> CachedFilelike \<Rightarrow> CachedFilelike" where
  "setConnection rng s =
     (let s1 = (case currentConnection s of
                  None \<Rightarrow> s
                | Some c \<Rightarrow> s\<lparr>destroyedStreams := destroyedStreams s @ [stream c]\<rparr>)
      in s1\<lparr>fetched := fetched s1 @ [(range_start rng, range_end rng - range_start rng)],
            currentConnection :=
              Some \<lparr>stream = length (fetched s1), remainingRange = rng,
                    requestedRange = rng, bytesRead = 0\<rparr>\<rparr>)"

definition updateState ::
  "(NewConnectionArgs \<Rightarrow> Range option) \<Rightarrow> CachedFilelike \<Rightarrow>
     ((error + unit) \<times> CachedFilelike) option"
where
  "updateState gnc s =
     (if closed s then Some (Inr (), s)
      else
        case resolveCacheHits (readRequests s) s of
          None \<Rightarrow> None
        | Some (Inl e, s1) \<Rightarrow> Some (Inl e, s1)
        | Some (Inr kept, s1) \<Rightarrow>
            let s2 = s1\<lparr>readRequests := kept\<rparr> in
            (case size_cf s2 of
               Inl e \<Rightarrow> Some (Inl e, s2)
             | Inr sz \<Rightarrow>
                 (case gnc \<lparr>currentRemainingRange = map_option remainingRange (currentConnection s2),
                            readRequestRange =
                              (case readRequests s2 of [] \<Rightarrow> None | r # _ \<Rightarrow> Some (request_range r)),
                            downloadedRanges = getRangesWithData (virtualBuffer s2),
                            lastResolvedEnd = lastResolvedCallbackEnd s2,
                            maxRequestSize = cacheSizeInBytes s2,
                            argFileSize = sz,
                            continueDownloadingThreshold =
                              CLOSE_ENOUGH_BYTES_TO_NOT_START_NEW_CONNECTION\<rparr> of
                    None \<Rightarrow> Some (Inr (), s2)
                  | Some newConnection \<Rightarrow> Some (Inr (), setConnection newConnection s2))))"

text \<open>
  \<open>read(offset, length)\<close>. The result is the promise it returns, either already settled
  or pending under its number; a pending promise is settled by a later entry of
  \<open>settlements\<close>. \<open>now\<close> is \<open>Date.now()\<close>. An exception of \<open>open\<close>, \<open>size\<close> or
  \<open>#updateState\<close> inside \<open>then\<close> reaches \<open>catch\<close> and rejects the promise.
\<close>

datatype readResult = Settled settlement | Pending nat

definition read_cf ::
  "(NewConnectionArgs \<Rightarrow> Range option) \<Rightarrow> (error + int) \<Rightarrow> int \<Rightarrow> CachedFilelike \<Rightarrow>
     int \<Rightarrow> int \<Rightarrow> (readResult \<times> CachedFilelike) option"
where
  "read_cf gnc readerOpen now s offset len =
     (if len = 0 then Some (Settled (Resolved []), s)
      else
        let rng = mkRange offset (offset + len) in
        if offset < 0 \<or> len < 0 then Some (Settled (Rejected ReadInvalidInput), s)
        else if cacheSizeInBytes s < enat (nat len)
        then Some (Settled (Rejected ReadExceedsCacheSize), s)
        else
          case open_cf readerOpen s of
            (Inl e, s1) \<Rightarrow> Some (Settled (Rejected e), s1)
          | (Inr u, s1) \<Rightarrow>
              (case size_cf s1 of
                 Inl e \<Rightarrow> Some (Settled (Rejected e), s1)
               | Inr sz \<Rightarrow>
                   if range_end rng > sz then Some (Settled (Rejected ReadExceedsFileSize), s1)
                   else
                     let p = nextPromise s1;
                         s2 = s1\<lparr>readRequests := readRequests s1 @
                                 [\<lparr>request_range = rng, promise = p, requestTime = now\<rparr>],
                               nextPromise := Suc p\<rparr>
                     in case updateState gnc s2 of
                          None \<Rightarrow> None
                        | Some (Inl e, s3) \<Rightarrow>
                            Some (Pending p, s3\<lparr>settlements := settlements s3 @ [(p, Rejected e)]\<rparr>)
                        | Some (Inr u, s3) \<Rightarrow> Some (Pending p, s3)))"



text \<open>The \<open>data\<close> handler of a stream (the logging of the download speed left out).\<close>

definition onStreamData ::
  "(NewConnectionArgs \<Rightarrow> Range option) \<Rightarrow> CachedFilelike \<Rightarrow> nat \<Rightarrow> byte list \<Rightarrow>
     ((error + unit) \<times> CachedFilelike) option"
where
  "onStreamData gnc s strm chunk =
     (case currentConnection s of
        None \<Rightarrow> Some (Inr (), s)
      | Some c \<Rightarrow>
          if strm \<noteq> stream c then Some (Inr (), s)
          else
            let s1 = (if lastErrorTime s \<noteq> None
                      then (if keepReconnectingCallback s
                            then s\<lparr>lastErrorTime := None,
                                   reconnectCalls := reconnectCalls s @ [False]\<rparr>
                            else s\<lparr>lastErrorTime := None\<rparr>)
                      else s)
            in case copyFrom (virtualBuffer s1) chunk (range_start (remainingRange c)) of
                 None \<Rightarrow> None
               | Some (Inl e, vb) \<Rightarrow> Some (Inl e, s1\<lparr>virtualBuffer := vb\<rparr>)
               | Some (Inr u, vb) \<Rightarrow>
                   let read' = bytesRead c + int (length chunk);
                       s2 = s1\<lparr>virtualBuffer := vb\<rparr>;
                       s3 = (if hasData vb (range_start (requestedRange c))
                                   (range_end (requestedRange c))
                             then s2\<lparr>destroyedStreams := destroyedStreams s2 @ [strm],
                                     currentConnection := None\<rparr>
                             else s2\<lparr>currentConnection :=
                                       Some (c\<lparr>remainingRange :=
                                                 mkRange (range_start (requestedRange c) + read')
                                                         (range_end (requestedRange c)),
                                              bytesRead := read'\<rparr>)\<rparr>)
                   in updateState gnc s3)"

text \<open>
  A stand-in for the missing \<open>getNewConnection\<close>, used only to run scenarios: it asks for
  the range of the first read request when there is no connection. \<open>afterFirstError\<close> is
  a cache without reconnect callback over a file of 1000 bytes, after \<open>read(0, 10)\<close> at
  time 900 and a first stream error at time 1000.
\<close>

definition requestFirstMissing :: "NewConnectionArgs \<Rightarrow> Range option" where
  "requestFirstMissing args =
     (case currentRemainingRange args of
        None \<Rightarrow> readRequestRange args
      | Some r \<Rightarrow> None)"


definition openedFile :: CachedFilelike where
  "openedFile = snd (open_cf (Inr 1000) (newCachedFilelike None))"


section \<open>Time (the rostime library, as the spec describes it)\<close>

text \<open>
  Modelled from the spec: \<open>compare\<close>, \<open>clampTime\<close>, \<open>add\<close> and \<open>fromNanoSec\<close> come from the
  library @foxglove/rostime, which is not part of the repository. The spec's data model
  says: a time is a pair \<open>(sec, nsec)\<close>, comparison is lexicographic, addition normalizes
  \<open>nsec\<close>; clamping returns the bound that the time exceeds.
\<close>

record Time =
  sec :: int
  nsec :: int

definition mkTime :: "int \<Rightarrow> int \<Rightarrow> Time" where
  "mkTime s n = \<lparr>sec = s, nsec = n\<rparr>"

definition compare :: "Time \<Rightarrow> Time \<Rightarrow> int" where
  "compare left right =
     (let secDiff = sec left - sec right
      in if secDiff \<noteq> 0 then secDiff else nsec left - nsec right)"

definition clampTime :: "Time \<Rightarrow> Time \<Rightarrow> Time \<Rightarrow> Time" where
  "clampTime time start endTime' =
     (if compare start time > 0 then start
      else if compare endTime' time < 0 then endTime'
      else time)"

definition fromNanoSec :: "int \<Rightarrow> Time" where
  "fromNanoSec n = \<lparr>sec = n div 1000000000, nsec = n mod 1000000000\<rparr>"

definition add :: "Time \<Rightarrow> Time \<Rightarrow> Time" where
  "add a b =
     \<lparr>sec = sec a + sec b + (nsec a + nsec b) div 1000000000,
      nsec = (nsec a + nsec b) mod 1000000000\<rparr>"

section \<open>The parser's types (types.ts)\<close>

record MessageEvent =
  topic :: string
  receiveTime :: Time
  sizeInBytes :: "int option"
  message :: string
  schemaName :: "string option"

record Topic =
  topic_name :: string
  topic_schemaName :: string

datatype PreloadType = Full | Partial

record SubscribePayload =
  sub_topic :: string
  preloadType :: "PreloadType option"

text \<open>
  A \<open>Map<string, SubscribePayload>\<close> in insertion order: setting a key that is present
  replaces its value in place, a new key goes to the end.
\<close>

type_synonym TopicSelection = "(string \<times> SubscribePayload) list"

fun mapSet :: "'k \<Rightarrow> 'v \<Rightarrow> ('k \<times> 'v) list \<Rightarrow> ('k \<times> 'v) list" where
  "mapSet k v [] = [(k, v)]"
| "mapSet k v ((k', v') # m) = (if k' = k then (k, v) # m else (k', v') # mapSet k v m)"

definition newMap :: "('k \<times> 'v) list \<Rightarrow> ('k \<times> 'v) list" where
  "newMap entries = fold (\<lambda>(k, v) m. mapSet k v m) entries []"

record MessageIteratorArgs =
  it_topics :: "TopicSelection option"
  it_start :: "Time option"
  it_end :: "Time option"
  it_reverse :: bool

record GetBackfillMessagesArgs =
  bf_topics :: TopicSelection
  bf_time :: Time

record Initalization =
  init_start :: Time
  init_end :: Time
  init_topics :: "Topic list"

datatype IteratorResult =
    MessageEventResult MessageEvent
  | ProblemResult nat string
  | StampResult Time

text \<open>
  What an \<open>AsyncIterableIterator\<close> hands out, one step per call of \<open>next()\<close>: a value, or a
  rejection, which ends it; at the end of the list the iterator is done.
\<close>

datatype IterStep = Yield IteratorResult | Reject error

text \<open>
  The \<open>IIterableSource\<close> that the player is given. Its promises are taken as settled when
  awaited: what they settle with is a field of this record.
\<close>

record IIterableSource =
  ds_initialize :: "error + Initalization"
  ds_messageIterator :: "MessageIteratorArgs \<Rightarrow> IterStep list"
  ds_getBackfillMessages :: "GetBackfillMessagesArgs \<Rightarrow> error + MessageEvent list"

section \<open>The player (Player.ts, the class RosbagPlayer)\<close>

datatype IterablePlayerState =
    Preinit | Initialize | StartPlay | Idle | SeekBackfill | Play | Close | ResetPlaybackIterator

datatype PlayerPresence =
    NOT_PRESENT | INITIALIZING | RECONNECTING | BUFFERING | PRESENT | ERROR

record PlayerState =
  ps_state :: IterablePlayerState
  ps_presence :: PlayerPresence
  ps_messages :: "MessageEvent list"
  ps_currentTime :: "Time option"
  ps_startTime :: "Time option"
  ps_endTime :: "Time option"
  ps_isPlaying :: bool
  ps_speed :: real
  ps_topics :: "Topic list"

text \<open>
  Where the driver \<open>runState\<close> stands between two calls from outside: not running, inside
  a state body, or suspended at one of the awaits that only a timer or an abort ends (the
  abort promise of \<open>stateIdle\<close>, the frame delay of \<open>statePlay\<close>, the start delay of
  \<open>stateInitialize\<close>). The awaits on the data source are taken as settled at once, so no
  call from outside falls between the statements of one state body, and the timers that
  announce buffering (after 100 and 500 ms) never fire.
\<close>

datatype Driver = NotRunning | Running | InIdle | InFrameDelay | InStartDelay

text \<open>
  The fields of the class (the \<open>progress\<close> object, which is never filled, left out).
  \<open>listener\<close> and \<open>abort\<close> say whether the listener and the abort controller are set.
  \<open>allTopicsIdentity\<close> numbers the \<open>Map\<close> objects assigned to \<open>allTopics\<close>, and
  \<open>statePlayAllTopics\<close> is the local variable \<open>allTopics\<close> of \<open>statePlay\<close>, for its
  comparison \<open>this.allTopics !== allTopics\<close>. \<open>emitted\<close> lists the states the listener was
  called with, \<open>terminated\<close> says whether \<open>dataSource.terminate\<close> was called.
\<close>

record RosbagPlayer =
  state :: IterablePlayerState
  nextState :: "IterablePlayerState option"
  listener :: bool
  abort :: bool
  runningState :: bool
  isPlaying :: bool
  speed :: real
  currentTime :: "Time option"
  startTime :: "Time option"
  endTime :: "Time option"
  untilTime :: "Time option"
  seekTarget :: "Time option"
  topics :: "Topic list"
  subscriptions :: "SubscribePayload list"
  messages :: "MessageEvent list"
  presence :: PlayerPresence
  allTopics :: TopicSelection
  allTopicsIdentity :: nat
  statePlayAllTopics :: nat
  playbackIterator :: "IterStep list option"
  driver :: Driver
  emitted :: "PlayerState list"
  terminated :: bool

definition newRosbagPlayer :: RosbagPlayer where
  "newRosbagPlayer =
     \<lparr>state = Idle, nextState = None, listener = False, abort = False, runningState = False,
      isPlaying = False, speed = 1, currentTime = None, startTime = None, endTime = None,
      untilTime = None, seekTarget = None, topics = [], subscriptions = [], messages = [],
      presence = INITIALIZING, allTopics = [], allTopicsIdentity = 0, statePlayAllTopics = 0,
      playbackIterator = None,
      driver = NotRunning, emitted = [], terminated = False\<rparr>"

text \<open>
  \<open>emitStateImpl\<close> (\<open>queueEmitState\<close> is bound to it). The function runs up to its only
  await, the call of the listener, when it is called: the listener receives the state in
  \<open>emitted\<close>.
\<close>

definition emitStateImpl :: "RosbagPlayer \<Rightarrow> RosbagPlayer" where
  "emitStateImpl s =
     (if \<not> listener s then s
      else
        let msgs = messages s;
            s1 = s\<lparr>messages := []\<rparr>;
            d = \<lparr>ps_state = state s1, ps_presence = presence s1, ps_messages = msgs,
                 ps_currentTime = currentTime s1, ps_startTime = startTime s1,
                 ps_endTime = endTime s1, ps_isPlaying = isPlaying s1, ps_speed = speed s1,
                 ps_topics = topics s1\<rparr>
        in s1\<lparr>emitted := emitted s1 @ [d]\<rparr>)"

definition queueEmitState :: "RosbagPlayer \<Rightarrow> RosbagPlayer" where
  "queueEmitState = emitStateImpl"

text \<open>
  \<open>setState\<close> up to its last statement. The last statement, \<open>void this.runState()\<close>,
  returns at once when the driver is running; \<open>setState\<close> below adds it for the calls
  from outside.
\<close>

definition setStatePending :: "RosbagPlayer \<Rightarrow> IterablePlayerState \<Rightarrow> RosbagPlayer" where
  "setStatePending s newState =
     (if nextState s = Some Close then s
      else s\<lparr>nextState := Some newState, abort := False\<rparr>)"

definition pausePlaybackBody :: "RosbagPlayer \<Rightarrow> RosbagPlayer" where
  "pausePlaybackBody s =
     (if \<not> isPlaying s then s
      else
        let s1 = s\<lparr>isPlaying := False, untilTime := None\<rparr>
        in if state s1 = Play then setStatePending s1 Idle else queueEmitState s1)"

text \<open>
  The loop of \<open>tick\<close>: \<open>next()\<close> until the iterator is done, a new state is requested or
  \<open>next()\<close> rejects; every message event is pushed. The result is the accumulated
  messages and what is left of the iterator.
\<close>

fun tickLoop ::
  "bool \<Rightarrow> IterStep list \<Rightarrow> MessageEvent list \<Rightarrow> MessageEvent list \<times> IterStep list" where
  "tickLoop requested [] messageEvents = (messageEvents, [])"
| "tickLoop requested (Reject e # rest) messageEvents = (messageEvents, [])"
| "tickLoop requested (Yield r # rest) messageEvents =
     (if requested then (messageEvents, rest)
      else case r of
             MessageEventResult msgEvent \<Rightarrow> tickLoop requested rest (messageEvents @ [msgEvent])
           | _ \<Rightarrow> tickLoop requested rest messageEvents)"

definition orElse :: "'a option \<Rightarrow> 'a \<Rightarrow> 'a" where
  "orElse a b = (case a of None \<Rightarrow> b | Some x \<Rightarrow> x)"

definition tick :: "RosbagPlayer \<Rightarrow> (error + unit) \<times> RosbagPlayer" where
  "tick s =
     (if \<not> isPlaying s then (Inr (), s)
      else case (startTime s, endTime s) of
        (Some st, Some en) \<Rightarrow>
          (case currentTime s of
             None \<Rightarrow> (Inl (Invariant ''Tried to play with no current time.''), s)
           | Some cur \<Rightarrow>
               let tickEnd = clampTime cur st (orElse (untilTime s) en);
                   (messageEvents, s1) =
                     (case playbackIterator s of
                        None \<Rightarrow> ([], s)
                      | Some it \<Rightarrow>
                          (let (ms, rest) = tickLoop (nextState s \<noteq> None) it []
                           in (ms, s\<lparr>playbackIterator := Some rest\<rparr>)));
                   s2 = s1\<lparr>presence := PRESENT\<rparr>
               in if nextState s2 \<noteq> None then (Inr (), s2)
                  else
                    let s3 = queueEmitState (s2\<lparr>currentTime := Some tickEnd,
                                                 messages := messageEvents\<rparr>)
                    in (case untilTime s3 of
                          Some u \<Rightarrow>
                            if compare tickEnd u \<ge> 0 then (Inr (), pausePlaybackBody s3)
                            else (Inr (), s3)
                        | None \<Rightarrow> (Inr (), s3)))
      | _ \<Rightarrow> (Inl (Invariant ''start & end should be set before tick()''), s))"

text \<open>
  \<open>resetPlaybackIterator\<close>: return the old iterator and ask the data source for one that
  starts one nanosecond after the current time.
\<close>

definition resetPlaybackIterator ::
  "IIterableSource \<Rightarrow> RosbagPlayer \<Rightarrow> (error + unit) \<times> RosbagPlayer" where
  "resetPlaybackIterator ds s =
     (case currentTime s of
        None \<Rightarrow> (Inl (Invariant ''Tried to reset playback iterator with no current time.''), s)
      | Some cur \<Rightarrow>
          (Inr (),
           s\<lparr>playbackIterator :=
               Some (ds_messageIterator ds
                 \<lparr>it_topics = Some (allTopics s), it_start = Some (add cur (mkTime 0 1)),
                  it_end = None, it_reverse = False\<rparr>)\<rparr>))"

datatype Step = Completed | Suspended Driver

definition stateInitialize :: "IIterableSource \<Rightarrow> RosbagPlayer \<Rightarrow> (error + Step) \<times> RosbagPlayer" where
  "stateInitialize ds s =
     (let s1 = queueEmitState s;
          s2 = (case ds_initialize ds of
                  Inl e \<Rightarrow> s1
                | Inr ini \<Rightarrow>
                    let target = map_option (\<lambda>t. clampTime t (init_start ini) (init_end ini))
                                   (seekTarget s1)
                    in s1\<lparr>seekTarget := target,
                          startTime := Some (init_start ini),
                          endTime := Some (init_end ini),
                          currentTime := Some (orElse target (init_start ini)),
                          topics := init_topics ini,
                          presence := PRESENT\<rparr>);
          s3 = queueEmitState s2
      in if startTime s3 \<noteq> None then (Inr (Suspended InStartDelay), s3)
         else (Inr Completed, s3))"

definition stateSeekBackfill ::
  "IIterableSource \<Rightarrow> RosbagPlayer \<Rightarrow> (error + Step) \<times> RosbagPlayer" where
  "stateSeekBackfill ds s =
     (case (startTime s, endTime s) of
        (Some st, Some en) \<Rightarrow>
          (case seekTarget s of
             None \<Rightarrow> (Inr Completed, s)
           | Some target \<Rightarrow>
               let targetTime = clampTime target st en;
                   s1 = s\<lparr>abort := True\<rparr>;
                   finally = (\<lambda>x. (if nextState x \<noteq> Some SeekBackfill
                                    then x\<lparr>seekTarget := None\<rparr> else x)\<lparr>abort := False\<rparr>)
               in case ds_getBackfillMessages ds
                         \<lparr>bf_topics = allTopics s1, bf_time = targetTime\<rparr> of
                    Inl e \<Rightarrow> (Inl e, finally s1)
                  | Inr msgs \<Rightarrow>
                      if nextState s1 \<noteq> None then (Inr Completed, finally s1)
                      else
                        let s2 = queueEmitState
                                   (s1\<lparr>messages := msgs, currentTime := Some targetTime,
                                       presence := PRESENT\<rparr>)
                        in case resetPlaybackIterator ds s2 of
                             (Inl e, s3) \<Rightarrow> (Inl e, finally s3)
                           | (Inr u, s3) \<Rightarrow>
                               (Inr Completed,
                                finally (setStatePending s3
                                           (if isPlaying s3 then Play else Idle))))
      | _ \<Rightarrow> (Inl (Invariant ''stateSeekBackfill prior to initialization''), s))"

text \<open>
  One turn of the loop of \<open>statePlay\<close>, from its condition to the frame delay. The checks
  before the loop are in \<open>statePlay\<close>.
\<close>

definition statePlayTurn :: "RosbagPlayer \<Rightarrow> (error + Step) \<times> RosbagPlayer" where
  "statePlayTurn s =
     (if isPlaying s \<and> nextState s = None then
        (case (currentTime s, endTime s) of
           (Some cur, Some en) \<Rightarrow>
             if compare cur en \<ge> 0 then (Inr Completed, setStatePending s Idle)
             else
               (case tick s of
                  (Inl e, s1) \<Rightarrow> (Inr Completed, queueEmitState s1)
                | (Inr u, s1) \<Rightarrow>
                    if nextState s1 \<noteq> None then (Inr Completed, s1)
                    else if allTopicsIdentity s1 \<noteq> statePlayAllTopics s1
                    then (Inr Completed, setStatePending s1 ResetPlaybackIterator)
                    else (Inr (Suspended InFrameDelay), s1))
         | _ \<Rightarrow> (Inr Completed, queueEmitState s))
      else (Inr Completed, s))"

definition statePlay :: "RosbagPlayer \<Rightarrow> (error + Step) \<times> RosbagPlayer" where
  "statePlay s =
     (if currentTime s = None
      then (Inl (Invariant ''currentTime not set before statePlay''), s)
      else if startTime s = None \<or> endTime s = None
      then (Inl (Invariant ''start & end should be set before statePlay''), s)
      else statePlayTurn (s\<lparr>statePlayAllTopics := allTopicsIdentity s\<rparr>))"

definition stateClose :: "RosbagPlayer \<Rightarrow> (error + Step) \<times> RosbagPlayer" where
  "stateClose s =
     (Inr Completed, s\<lparr>isPlaying := False, terminated := True, playbackIterator := None\<rparr>)"

definition stateResetPlaybackIterator ::
  "IIterableSource \<Rightarrow> RosbagPlayer \<Rightarrow> (error + Step) \<times> RosbagPlayer" where
  "stateResetPlaybackIterator ds s =
     (case resetPlaybackIterator ds s of
        (Inl e, s1) \<Rightarrow> (Inl e, s1)
      | (Inr u, s1) \<Rightarrow>
          (Inr Completed, setStatePending s1 (if isPlaying s1 then Play else Idle)))"

definition stateIdle :: "RosbagPlayer \<Rightarrow> (error + Step) \<times> RosbagPlayer" where
  "stateIdle s =
     (if abort s then (Inl (Invariant ''some other abort controller exists''), s)
      else
        (Inr (Suspended InIdle),
         queueEmitState (s\<lparr>isPlaying := False, presence := PRESENT, abort := True\<rparr>)))"

text \<open>
  The loop of \<open>stateStartPlay\<close>: messages up to \<open>stopTime\<close> are collected; \<open>None\<close> is the
  early \<open>return\<close> taken when a new state was requested.
\<close>

fun startPlayLoop ::
  "bool \<Rightarrow> Time \<Rightarrow> IterStep list \<Rightarrow> MessageEvent list \<Rightarrow>
     (MessageEvent list \<times> IterStep list) option" where
  "startPlayLoop requested stopTime [] messageEvents = Some (messageEvents, [])"
| "startPlayLoop requested stopTime (Reject e # rest) messageEvents = Some (messageEvents, [])"
| "startPlayLoop requested stopTime (Yield r # rest) messageEvents =
     (if requested then None
      else case r of
             MessageEventResult msgEvent \<Rightarrow>
               if compare (receiveTime msgEvent) stopTime > 0 then Some (messageEvents, rest)
               else startPlayLoop requested stopTime rest (messageEvents @ [msgEvent])
           | _ \<Rightarrow> startPlayLoop requested stopTime rest messageEvents)"

definition SEEK_ON_START_NS :: int where
  "SEEK_ON_START_NS = 99 * 1000000"

definition stateStartPlay ::
  "IIterableSource \<Rightarrow> RosbagPlayer \<Rightarrow> (error + Step) \<times> RosbagPlayer" where
  "stateStartPlay ds s =
     (case (startTime s, endTime s) of
        (Some st, Some en) \<Rightarrow>
          if seekTarget s \<noteq> None then (Inr Completed, setStatePending s SeekBackfill)
          else if playbackIterator s \<noteq> None
          then (Inl (Invariant ''playbackIterator was already set''), s)
          else
            let stopTime = clampTime (add st (fromNanoSec SEEK_ON_START_NS)) st en;
                it = ds_messageIterator ds
                       \<lparr>it_topics = Some (allTopics s), it_start = Some st,
                        it_end = None, it_reverse = False\<rparr>;
                s1 = s\<lparr>playbackIterator := Some it, messages := []\<rparr>
            in case startPlayLoop (nextState s1 \<noteq> None) stopTime it [] of
                 None \<Rightarrow> (Inr Completed, s1\<lparr>playbackIterator := Some (tl it)\<rparr>)
               | Some (messageEvents, rest) \<Rightarrow>
                   (Inr Completed,
                    setStatePending
                      (queueEmitState
                         (s1\<lparr>playbackIterator := Some rest, currentTime := Some stopTime,
                             messages := messageEvents, presence := PRESENT\<rparr>))
                      Idle)
      | _ \<Rightarrow> (Inl (Invariant ''start and end must be set''), s))"

definition runStateBody ::
  "IIterableSource \<Rightarrow> IterablePlayerState \<Rightarrow> RosbagPlayer \<Rightarrow> (error + Step) \<times> RosbagPlayer"
where
  "runStateBody ds st s =
     (case st of
        Preinit \<Rightarrow> (Inr Completed, queueEmitState s)
      | Initialize \<Rightarrow> stateInitialize ds s
      | StartPlay \<Rightarrow> stateStartPlay ds s
      | Idle \<Rightarrow> stateIdle s
      | SeekBackfill \<Rightarrow> stateSeekBackfill ds s
      | Play \<Rightarrow> statePlay s
      | Close \<Rightarrow> stateClose s
      | ResetPlaybackIterator \<Rightarrow> stateResetPlaybackIterator ds s)"

text \<open>
  The loop of \<open>runState\<close>, from its condition \<open>while (this.nextState)\<close> until the driver
  suspends or no state is pending. An exception of a state body is caught: a state is
  emitted and the driver stops.
\<close>

partial_function (option) runLoop :: "IIterableSource \<Rightarrow> RosbagPlayer \<Rightarrow> RosbagPlayer option"
where
  "runLoop ds s =
     (case nextState s of
        None \<Rightarrow> Some (s\<lparr>runningState := False, driver := NotRunning\<rparr>)
      | Some st \<Rightarrow>
          (case runStateBody ds st
                  ((if st \<noteq> Idle \<and> st \<noteq> Play \<and> playbackIterator s \<noteq> None
                    then s\<lparr>playbackIterator := None\<rparr> else s)
                   \<lparr>state := st, nextState := None\<rparr>) of
             (Inl e, s1) \<Rightarrow> Some ((queueEmitState s1)\<lparr>runningState := False, driver := NotRunning\<rparr>)
           | (Inr (Suspended d), s1) \<Rightarrow> Some (s1\<lparr>driver := d\<rparr>)
           | (Inr Completed, s1) \<Rightarrow> runLoop ds s1))"

declare runLoop.simps [code]

text \<open>
  \<open>runState\<close> as a call from outside: nothing when the driver is running, except that the
  abort which \<open>setState\<close> has just signalled ends the wait of \<open>stateIdle\<close>, so that the
  loop goes on.
\<close>

definition runState :: "IIterableSource \<Rightarrow> RosbagPlayer \<Rightarrow> RosbagPlayer option" where
  "runState ds s =
     (if runningState s then
        (if driver s = InIdle then runLoop ds (s\<lparr>driver := Running\<rparr>) else Some s)
      else runLoop ds (s\<lparr>runningState := True, driver := Running\<rparr>))"

definition setState ::
  "IIterableSource \<Rightarrow> RosbagPlayer \<Rightarrow> IterablePlayerState \<Rightarrow> RosbagPlayer option" where
  "setState ds s newState =
     (if nextState s = Some Close then Some s
      else runState ds (setStatePending s newState))"


definition afterFrameDelay :: "IIterableSource \<Rightarrow> RosbagPlayer \<Rightarrow> RosbagPlayer option" where
  "afterFrameDelay ds s =
     (if driver s = InFrameDelay then
        (case statePlayTurn (s\<lparr>driver := Running\<rparr>) of
           (Inl e, s1) \<Rightarrow> Some ((queueEmitState s1)\<lparr>runningState := False, driver := NotRunning\<rparr>)
         | (Inr (Suspended d), s1) \<Rightarrow> Some (s1\<lparr>driver := d\<rparr>)
         | (Inr Completed, s1) \<Rightarrow> runLoop ds s1)
      else Some s)"


definition pausePlayback :: "IIterableSource \<Rightarrow> RosbagPlayer \<Rightarrow> RosbagPlayer option" where
  "pausePlayback ds s =
     (if \<not> isPlaying s then Some s
      else
        let s1 = s\<lparr>isPlaying := False, untilTime := None\<rparr>
        in if state s1 = Play then setState ds s1 Idle else Some (queueEmitState s1))"


definition setPlaybackSpeed :: "RosbagPlayer \<Rightarrow> real \<Rightarrow> RosbagPlayer" where
  "setPlaybackSpeed s x = queueEmitState (s\<lparr>speed := max (1 / 10) (min 10 x)\<rparr>)"

definition setSubscriptions ::
  "IIterableSource \<Rightarrow> RosbagPlayer \<Rightarrow> SubscribePayload list \<Rightarrow> RosbagPlayer option" where
  "setSubscriptions ds s subs =
     (let s1 = s\<lparr>subscriptions := subs,
                 allTopics := newMap (map (\<lambda>subscription. (sub_topic subscription, subscription))
                                         subs),
                 allTopicsIdentity := Suc (allTopicsIdentity s)\<rparr>
      in if (state s1 = Idle \<or> state s1 = SeekBackfill \<or> state s1 = Play \<or> state s1 = StartPlay)
            \<and> \<not> isPlaying s1 \<and> currentTime s1 \<noteq> None
         then setState ds (s1\<lparr>seekTarget := currentTime s1, untilTime := None\<rparr>) SeekBackfill
         else Some s1)"

definition close :: "IIterableSource \<Rightarrow> RosbagPlayer \<Rightarrow> RosbagPlayer option" where
  "close ds s = setState ds s Close"

definition startPlayImpl ::
  "IIterableSource \<Rightarrow> RosbagPlayer \<Rightarrow> Time option \<Rightarrow> ((error + unit) \<times> RosbagPlayer) option"
where
  "startPlayImpl ds s until =
     (case (startTime s, endTime s) of
        (Some st, Some en) \<Rightarrow>
          if isPlaying s then Some (Inr (), s)
          else if (case (until, currentTime s) of
                     (Some u, Some cur) \<Rightarrow> compare u cur \<le> 0
                   | _ \<Rightarrow> False)
          then Some (Inl (Invariant ''playUntil time must be after the current time''), s)
          else
            let s1 = (case until of
                        None \<Rightarrow> s
                      | Some u \<Rightarrow> s\<lparr>untilTime := Some (clampTime u st en)\<rparr>)
                     \<lparr>isPlaying := True\<rparr>
            in if state s1 = Idle \<and> (nextState s1 = None \<or> nextState s1 = Some Idle)
               then map_option (Pair (Inr ())) (setState ds s1 Play)
               else Some (Inr (), queueEmitState s1)
      | _ \<Rightarrow> Some (Inr (), s))"

definition startPlayback ::
  "IIterableSource \<Rightarrow> RosbagPlayer \<Rightarrow> ((error + unit) \<times> RosbagPlayer) option" where
  "startPlayback ds s = startPlayImpl ds s None"


text \<open>
  The two things that happen to the outgoing buffer \<open>messages\<close>: a state body assigns a
  batch to it (\<open>this.messages = ...\<close> in \<open>tick\<close>, \<open>stateSeekBackfill\<close> and
  \<open>stateStartPlay\<close>), and \<open>emitStateImpl\<close> hands it to the listener.
\<close>

datatype BufferOp = AssignMessages "MessageEvent list" | EmitState

fun applyBufferOps :: "BufferOp list \<Rightarrow> RosbagPlayer \<Rightarrow> RosbagPlayer" where
  "applyBufferOps [] s = s"
| "applyBufferOps (AssignMessages batch # ops) s = applyBufferOps ops (s\<lparr>messages := batch\<rparr>)"
| "applyBufferOps (EmitState # ops) s = applyBufferOps ops (emitStateImpl s)"

fun assignedMessages :: "BufferOp list \<Rightarrow> MessageEvent list" where
  "assignedMessages [] = []"
| "assignedMessages (AssignMessages batch # ops) = batch @ assignedMessages ops"
| "assignedMessages (EmitState # ops) = assignedMessages ops"

definition deliveredMessages :: "RosbagPlayer \<Rightarrow> MessageEvent list" where
  "deliveredMessages s = concat (map ps_messages (emitted s))"



text \<open>
  A player in the state \<open>play\<close> at time \<open>(10, 0)\<close> of the same recording, whose forward
  iterator still holds the messages of topic \<open>a\<close> received at \<open>(20, 0)\<close> and \<open>(50, 0)\<close>.
\<close>

definition messageAt :: "string \<Rightarrow> int \<Rightarrow> MessageEvent" where
  "messageAt name s =
     \<lparr>topic = name, receiveTime = mkTime s 0, sizeInBytes = Some 1, message = ''payload'',
      schemaName = Some ''A''\<rparr>"

definition playingAtTen :: RosbagPlayer where
  "playingAtTen =
     newRosbagPlayer
       \<lparr>state := Play, listener := True, runningState := True, isPlaying := True,
        currentTime := Some (mkTime 10 0), startTime := Some (mkTime 0 0),
        endTime := Some (mkTime 100 0), presence := PRESENT,
        playbackIterator := Some [Yield (MessageEventResult (messageAt ''a'' 20)),
                                  Yield (MessageEventResult (messageAt ''a'' 50))],
        driver := Running\<rparr>"

section \<open>The bag adapter (BagIterableSource.ts)\<close>














section \<open>Range sets: merging, union and subtraction keep the bytes they should\<close>

lemma bytesOf_Nil: "bytesOf [] = {}"
  by (simp add: bytesOf_def)

lemma bytesOf_Cons: "bytesOf (r # rs) = {range_start r ..< range_end r} \<union> bytesOf rs"
  by (simp add: bytesOf_def)

lemma bytesOf_append: "bytesOf (xs @ ys) = bytesOf xs \<union> bytesOf ys"
  by (auto simp: bytesOf_def)

lemma bytesOf_set_cong: "set xs = set ys \<Longrightarrow> bytesOf xs = bytesOf ys"
  by (simp add: bytesOf_def)

lemma bytesOf_filter_nonempty:
  "bytesOf (filter (\<lambda>r. range_start r < range_end r) rs) = bytesOf rs"
  by (auto simp: bytesOf_def)

lemma bytesOf_mergeFrom:
  "sorted (map range_start (cur # rs)) \<Longrightarrow> bytesOf (mergeFrom cur rs) = bytesOf (cur # rs)"
proof (induction rs arbitrary: cur)
  case Nil
  show ?case by simp
next
  case (Cons b rs)
  from Cons.prems have le: "range_start cur \<le> range_start b"
    and srt: "sorted (map range_start (b # rs))"
    and all: "\<forall>x \<in> set rs. range_start cur \<le> range_start x"
    by auto
  show ?case
  proof (cases "range_start b \<le> range_end cur")
    case True
    let ?c = "cur\<lparr>range_end := max (range_end cur) (range_end b)\<rparr>"
    have "sorted (map range_start (?c # rs))"
      using srt all by simp
    then have "bytesOf (mergeFrom ?c rs) = bytesOf (?c # rs)"
      by (rule Cons.IH)
    moreover have "{range_start cur ..< max (range_end cur) (range_end b)} =
        {range_start cur ..< range_end cur} \<union> {range_start b ..< range_end b}"
      using le True by auto
    ultimately show ?thesis
      using True by (simp add: bytesOf_Cons Un_assoc)
  next
    case False
    then show ?thesis
      using Cons.IH [OF srt] by (simp add: bytesOf_Cons)
  qed
qed

lemma bytesOf_simplify: "bytesOf (simplify rs) = bytesOf rs"
proof -
  let ?xs = "sort_key range_start (filter (\<lambda>r. range_start r < range_end r) rs)"
  have b: "bytesOf ?xs = bytesOf rs"
    using bytesOf_set_cong [of ?xs "filter (\<lambda>r. range_start r < range_end r) rs"]
    by (simp add: bytesOf_filter_nonempty)
  show ?thesis
  proof (cases ?xs)
    case Nil
    then show ?thesis using b by (simp add: simplify_def bytesOf_Nil)
  next
    case (Cons r rest)
    have "sorted (map range_start ?xs)" by simp
    then have "bytesOf (mergeFrom r rest) = bytesOf (r # rest)"
      unfolding Cons by (rule bytesOf_mergeFrom)
    then show ?thesis using b Cons by (simp add: simplify_def)
  qed
qed

lemma bytesOf_unify: "bytesOf (unify as bs) = bytesOf as \<union> bytesOf bs"
  by (simp add: unify_def bytesOf_simplify bytesOf_append)

lemma bytesOf_substractOne:
  "range_start m \<le> range_end m \<Longrightarrow>
   bytesOf (substractOne m r) = {range_start r ..< range_end r} - {range_start m ..< range_end m}"
  by (auto simp: substractOne_def bytesOf_def mkRange_def)

lemma bytesOf_concat_substractOne:
  "range_start m \<le> range_end m \<Longrightarrow>
   bytesOf (concat (map (substractOne m) rs)) = bytesOf rs - {range_start m ..< range_end m}"
proof (induction rs)
  case Nil
  show ?case by (simp add: bytesOf_Nil)
next
  case (Cons r rs)
  then show ?case
    by (simp add: bytesOf_append bytesOf_Cons bytesOf_substractOne Un_Diff)
qed

lemma bytesOf_substract_single:
  "range_start m \<le> range_end m \<Longrightarrow>
   bytesOf (substract rs [m]) = bytesOf rs - {range_start m ..< range_end m}"
  by (simp add: substract_def bytesOf_simplify bytesOf_concat_substractOne)

subsection \<open>The merged list is canonical, and a covered query is found in it\<close>

lemma mergeFrom_starts:
  "sorted (map range_start (cur # rs)) \<Longrightarrow> m \<in> set (mergeFrom cur rs) \<Longrightarrow>
   range_start cur \<le> range_start m"
proof (induction rs arbitrary: cur)
  case Nil
  then show ?case by simp
next
  case (Cons b rs)
  from Cons.prems have le: "range_start cur \<le> range_start b"
    and srt: "sorted (map range_start (b # rs))"
    and all: "\<forall>x \<in> set rs. range_start cur \<le> range_start x"
    by auto
  show ?case
  proof (cases "range_start b \<le> range_end cur")
    case True
    let ?c = "cur\<lparr>range_end := max (range_end cur) (range_end b)\<rparr>"
    have "sorted (map range_start (?c # rs))" using srt all by simp
    from Cons.IH [OF this] Cons.prems(2) True show ?thesis by simp
  next
    case False
    with Cons.prems(2) have "m = cur \<or> m \<in> set (mergeFrom b rs)" by simp
    then show ?thesis using Cons.IH [OF srt] le by auto
  qed
qed

lemma mergeFrom_canonical:
  "sorted (map range_start (cur # rs)) \<Longrightarrow>
   list_all (\<lambda>r. range_start r < range_end r) (cur # rs) \<Longrightarrow>
   canonical (mergeFrom cur rs)"
proof (induction rs arbitrary: cur)
  case Nil
  then show ?case by (simp add: canonical_def)
next
  case (Cons b rs)
  from Cons.prems have le: "range_start cur \<le> range_start b"
    and srt: "sorted (map range_start (b # rs))"
    and all: "\<forall>x \<in> set rs. range_start cur \<le> range_start x"
    and ne: "range_start cur < range_end cur" "range_start b < range_end b"
      "list_all (\<lambda>r. range_start r < range_end r) rs"
    by auto
  show ?case
  proof (cases "range_start b \<le> range_end cur")
    case True
    let ?c = "cur\<lparr>range_end := max (range_end cur) (range_end b)\<rparr>"
    have "sorted (map range_start (?c # rs))" using srt all by simp
    moreover have "list_all (\<lambda>r. range_start r < range_end r) (?c # rs)"
      using ne by simp
    ultimately have "canonical (mergeFrom ?c rs)" by (rule Cons.IH)
    then show ?thesis using True by simp
  next
    case False
    have c: "canonical (mergeFrom b rs)"
      using Cons.IH [OF srt] ne by simp
    have "\<forall>m \<in> set (mergeFrom b rs). range_end cur < range_start m"
      using mergeFrom_starts [OF srt] False by fastforce
    then show ?thesis
      using c False ne by (simp add: canonical_def)
  qed
qed

lemma simplify_canonical: "canonical (simplify rs)"
proof -
  let ?xs = "sort_key range_start (filter (\<lambda>r. range_start r < range_end r) rs)"
  show ?thesis
  proof (cases ?xs)
    case Nil
    then show ?thesis by (simp add: simplify_def canonical_def)
  next
    case (Cons r rest)
    have "sorted (map range_start ?xs)" by simp
    moreover have "list_all (\<lambda>r. range_start r < range_end r) ?xs"
      by (simp add: list_all_iff)
    ultimately have "canonical (mergeFrom r rest)"
      unfolding Cons by (rule mergeFrom_canonical)
    then show ?thesis using Cons by (simp add: simplify_def)
  qed
qed

lemma isDuring_trans: "isDuring a b \<Longrightarrow> isDuring b c \<Longrightarrow> isDuring a c"
  by (simp add: isDuring_def)

lemma mergeFrom_covers:
  "sorted (map range_start (cur # rs)) \<Longrightarrow> r \<in> set (cur # rs) \<Longrightarrow>
   \<exists>m \<in> set (mergeFrom cur rs). isDuring r m"
proof (induction rs arbitrary: cur r)
  case Nil
  then show ?case by (simp add: isDuring_def)
next
  case (Cons b rs)
  from Cons.prems have le: "range_start cur \<le> range_start b"
    and srt: "sorted (map range_start (b # rs))"
    and all: "\<forall>x \<in> set rs. range_start cur \<le> range_start x"
    by auto
  show ?case
  proof (cases "range_start b \<le> range_end cur")
    case True
    let ?c = "cur\<lparr>range_end := max (range_end cur) (range_end b)\<rparr>"
    have s: "sorted (map range_start (?c # rs))" using srt all by simp
    have "\<exists>r' \<in> set (?c # rs). isDuring r r'"
    proof -
      from Cons.prems(2) consider "r = cur" | "r = b" | "r \<in> set rs" by auto
      then show ?thesis
      proof cases
        case 1 then show ?thesis by (simp add: isDuring_def)
      next
        case 2 then show ?thesis using le by (simp add: isDuring_def)
      next
        case 3 then show ?thesis by (auto simp: isDuring_def)
      qed
    qed
    then obtain r' where r': "r' \<in> set (?c # rs)" "isDuring r r'" by blast
    from Cons.IH [OF s r'(1)] obtain m where m: "m \<in> set (mergeFrom ?c rs)" "isDuring r' m"
      by blast
    have "isDuring r m" using r'(2) m(2) by (rule isDuring_trans)
    then show ?thesis using True m(1) by auto
  next
    case False
    show ?thesis
    proof (cases "r = cur")
      case True
      then show ?thesis using False by (simp add: isDuring_def)
    next
      case neq: False
      with Cons.prems(2) have "r \<in> set (b # rs)" by simp
      from Cons.IH [OF srt this] show ?thesis using False by auto
    qed
  qed
qed

lemma simplify_covers:
  assumes "r \<in> set rs" "range_start r < range_end r"
  shows "\<exists>m \<in> set (simplify rs). isDuring r m"
proof -
  let ?xs = "sort_key range_start (filter (\<lambda>r. range_start r < range_end r) rs)"
  have mem: "r \<in> set ?xs" using assms by simp
  then obtain x rest where xs: "?xs = x # rest" by (cases ?xs) auto
  have "sorted (map range_start ?xs)" by simp
  then have "\<exists>m \<in> set (mergeFrom x rest). isDuring r m"
    using mem unfolding xs by (rule mergeFrom_covers)
  then show ?thesis using xs by (simp add: simplify_def)
qed

lemma isRangeCoveredByRanges_canonical:
  "canonical ms \<Longrightarrow> range_start q < range_end q \<Longrightarrow>
   isRangeCoveredByRanges q ms \<longleftrightarrow> (\<exists>m \<in> set ms. isDuring q m)"
proof (induction ms)
  case Nil
  then show ?case by simp
next
  case (Cons r rs)
  from Cons.prems(1) have c: "canonical rs"
    and ner: "range_start r < range_end r"
    and sep: "\<forall>m \<in> set rs. range_end r < range_start m"
    by (auto simp: canonical_def)
  show ?case
  proof (cases "isBefore q r")
    case True
    have "\<not> isDuring q m" if "m \<in> set (r # rs)" for m
      using that True ner sep Cons.prems(2) by (fastforce simp: isBefore_def isDuring_def)
    then show ?thesis using True by auto
  next
    case False
    then show ?thesis using Cons.IH [OF c Cons.prems(2)] by auto
  qed
qed

lemma covered_after_unify:
  assumes "range_start q < range_end q"
  shows "isRangeCoveredByRanges q (simplify (unify [q] rs))"
proof -
  have "\<exists>m \<in> set (simplify ([q] @ rs)). isDuring q m"
    using assms by (intro simplify_covers) auto
  then obtain m where m: "m \<in> set (unify [q] rs)" "isDuring q m"
    by (auto simp: unify_def)
  have cu: "canonical (unify [q] rs)" by (simp add: unify_def simplify_canonical)
  then have ne: "range_start m < range_end m"
    using m(1) by (auto simp: canonical_def list_all_iff)
  from simplify_covers [OF m(1) ne] obtain m' where
    m': "m' \<in> set (simplify (unify [q] rs))" "isDuring m m'" by blast
  have "isDuring q m'" using m(2) m'(2) by (rule isDuring_trans)
  then have "\<exists>m' \<in> set (simplify (unify [q] rs)). isDuring q m'"
    using m'(1) by blast
  then show ?thesis
    using isRangeCoveredByRanges_canonical [OF simplify_canonical assms] by blast
qed


section \<open>Evaluating a write that spans more blocks than may be resident\<close>

lemma spanning_write_state:
  "copyFrom (newVirtualLRUBuffer 2 (Some 1) (Some 1)) [1, 2] 0 =
     Some (Inr (),
       \<lparr>byteLength = 2, blocks = (\<lambda>_. None)(1 \<mapsto> [2]), blockSize = 1,
        numberOfBlocks = enat 1, lastAccessedBlockIndices = [1],
        rangesWithData = [mkRange 0 2]\<rparr>)"
  by (simp add: newVirtualLRUBuffer_def copyFrom_def copyFromLoop.simps calculatePosition_def
      getBlock_def Let_def newBlockSize_def copy_def mkRange_def simplify_def unify_def
      substract_def substractOne_def kMaxLength_def one_enat_def)

text \<open>
  C8 (code defect). The field comment of \<open>#rangesWithData\<close> says it holds the ranges that
  were copied and not evicted, so the filled ranges should stay inside the resident blocks.
  In a buffer of two one-byte blocks with at most one resident block, writing two bytes at
  offset 0 evicts block 0 while block 1 is written, but \<open>copyFrom\<close> records the whole range
  \<open>[0, 2)\<close> as filled after the loop: byte 0 is reported as filled although block 0 is
  not resident.
\<close>

theorem copyFrom_spanning_write_filled_outside_resident:
  "filledWithinResident (newVirtualLRUBuffer 2 (Some 1) (Some 1)) \<and>
   (case copyFrom (newVirtualLRUBuffer 2 (Some 1) (Some 1)) [1, 2] 0 of
      Some (Inr u, s) \<Rightarrow>
        rangesWithData s = [mkRange 0 2] \<and> blocks s 0 = None \<and> blocks s 1 = Some [2] \<and>
        lastAccessedBlockIndices s = [1] \<and> \<not> filledWithinResident s
    | _ \<Rightarrow> False)"
  by (simp only: spanning_write_state)
     (simp add: filledWithinResident_def residentBytes_def bytesOf_def mkRange_def
        newVirtualLRUBuffer_def)


section \<open>VirtualLRUBuffer: one block access\<close>

lemma copy_fold_length:
  "length (fold (\<lambda>i t. t[ts + i := src ! (ss + i)]) [0 ..< n] tgt) = length tgt"
  by (induction n) simp_all

lemma copy_fold_nth:
  "j < length tgt \<Longrightarrow>
   fold (\<lambda>i t. t[ts + i := src ! (ss + i)]) [0 ..< n] tgt ! j =
     (if ts \<le> j \<and> j < ts + n then src ! (ss + (j - ts)) else tgt ! j)"
proof (induction n)
  case 0
  then show ?case by auto
next
  case (Suc n)
  let ?t = "fold (\<lambda>i t. t[ts + i := src ! (ss + i)]) [0 ..< n] tgt"
  have len: "length ?t = length tgt" by (rule copy_fold_length)
  show ?case
  proof (cases "j = ts + n")
    case True
    then show ?thesis using Suc.prems len by simp
  next
    case False
    then have "?t[ts + n := src ! (ss + n)] ! j = ?t ! j" by simp
    then show ?thesis using Suc False by auto
  qed
qed

lemma length_copy: "length (copy source target ts ss) = length target"
  by (simp add: copy_def copy_fold_length)

lemma nth_copy:
  "j < length target \<Longrightarrow>
   copy source target ts ss ! j =
     (if ts \<le> j \<and> j < ts + (length source - ss) then source ! (ss + (j - ts)) else target ! j)"
  by (simp add: copy_def copy_fold_nth)

lemma newBlockSize_nonneg: "0 < blockSize s \<Longrightarrow> 0 \<le> newBlockSize s k"
  by (simp add: newBlockSize_def)

lemma wellFormed_new:
  "(case bs of None \<Rightarrow> True | Some b \<Rightarrow> 0 < b) \<Longrightarrow> wellFormed (newVirtualLRUBuffer sz bs nb)"
  by (simp add: wellFormed_def newVirtualLRUBuffer_def kMaxLength_def zero_enat_def [symmetric]
      split: option.splits)

lemma getBlock_general:
  assumes wf: "wellFormed s" and g: "getBlock s k = (r, s')"
  shows "wellFormed s'"
    and "byteLength s' = byteLength s"
    and "blockSize s' = blockSize s"
    and "numberOfBlocks s' = numberOfBlocks s"
    and "bytesOf (rangesWithData s') \<subseteq> bytesOf (rangesWithData s)"
    and "numberOfBlocks s = \<infinity> \<Longrightarrow> rangesWithData s' = rangesWithData s"
    and "\<And>b. r = Inr b \<Longrightarrow> int (length b) = newBlockSize s k \<and> blocks s' k = Some b"
proof -
  define s1 where "s1 = (if blocks s k = None
      then s\<lparr>blocks := (blocks s)(k \<mapsto> replicate (nat (newBlockSize s k)) 0)\<rparr> else s)"
  define s2 where "s2 = s1\<lparr>lastAccessedBlockIndices :=
      filter (\<lambda>idx. idx \<noteq> k) (lastAccessedBlockIndices s1) @ [k]\<rparr>"
  define L where "L = filter (\<lambda>idx. idx \<noteq> k) (lastAccessedBlockIndices s) @ [k]"
  define s3 where "s3 = (if numberOfBlocks s2 < enat (length (lastAccessedBlockIndices s2))
      then (case lastAccessedBlockIndices s2 of [] \<Rightarrow> s2
            | deleteIndex # rest \<Rightarrow>
                s2\<lparr>lastAccessedBlockIndices := rest,
                   blocks := (blocks s2)(deleteIndex := None),
                   rangesWithData := simplify (substract (rangesWithData s2)
                     [mkRange (deleteIndex * blockSize s2) ((deleteIndex + 1) * blockSize s2)])\<rparr>)
      else s2)"
  have L1: "lastAccessedBlockIndices s1 = lastAccessedBlockIndices s"
    by (simp add: s1_def)
  have L2: "lastAccessedBlockIndices s2 = L"
    by (simp add: s2_def L_def L1)
  have res: "getBlock s k =
      (case blocks s3 k of None \<Rightarrow> (Inl BlockInvariantViolated, s3) | Some b \<Rightarrow> (Inr b, s3))"
    unfolding getBlock_def Let_def s3_def s2_def s1_def by (rule refl)
  then have s': "s' = s3" using g by (auto split: option.splits)
  have B: "0 < blockSize s" using wf by (simp add: wellFormed_def)
  have st1: "byteLength s1 = byteLength s" "blockSize s1 = blockSize s"
    "numberOfBlocks s1 = numberOfBlocks s" "rangesWithData s1 = rangesWithData s"
    by (simp_all add: s1_def)
  have nbs1: "newBlockSize s1 = newBlockSize s"
    by (rule ext) (simp add: newBlockSize_def st1)
  have len1: "\<forall>i b. blocks s1 i = Some b \<longrightarrow> int (length b) = newBlockSize s i"
    using wf newBlockSize_nonneg [OF B, of k] by (auto simp: s1_def wellFormed_def)
  have dL: "distinct L" using wf by (simp add: L_def wellFormed_def)
  have lenL: "length L \<le> Suc (length (lastAccessedBlockIndices s))"
    by (simp add: L_def)
  have st2: "byteLength s2 = byteLength s" "blockSize s2 = blockSize s"
    "numberOfBlocks s2 = numberOfBlocks s" "rangesWithData s2 = rangesWithData s"
    "blocks s2 = blocks s1"
    by (simp_all add: s2_def st1)
  have st3: "byteLength s3 = byteLength s \<and> blockSize s3 = blockSize s \<and>
      numberOfBlocks s3 = numberOfBlocks s"
    by (simp add: s3_def st2 split: list.splits)
  have nbs3: "newBlockSize s3 = newBlockSize s"
    by (rule ext) (simp add: newBlockSize_def st3)
  have len3: "\<forall>i b. blocks s3 i = Some b \<longrightarrow> int (length b) = newBlockSize s i"
    using len1 by (auto simp: s3_def st2 split: list.splits if_splits)
  have dl3: "distinct (lastAccessedBlockIndices s3) \<and>
      enat (length (lastAccessedBlockIndices s3)) \<le> numberOfBlocks s"
  proof (cases "numberOfBlocks s < enat (length L)")
    case True
    then obtain h rest where hr: "L = h # rest" by (cases L) (auto simp: zero_enat_def [symmetric])
    have "enat (length (lastAccessedBlockIndices s)) \<le> numberOfBlocks s"
      using wf by (simp add: wellFormed_def)
    moreover have "length rest \<le> length (lastAccessedBlockIndices s)"
      using lenL hr by simp
    ultimately have "enat (length rest) \<le> numberOfBlocks s"
      by (meson enat_ord_simps(1) order_trans)
    then show ?thesis using True hr dL by (simp add: s3_def st2 L2)
  next
    case False
    then show ?thesis using dL by (simp add: s3_def st2 L2)
  qed
  show "wellFormed s'"
    using B st3 dl3 len3 nbs3 unfolding s' wellFormed_def by simp
  show "byteLength s' = byteLength s" "blockSize s' = blockSize s"
    "numberOfBlocks s' = numberOfBlocks s"
    using st3 by (simp_all add: s')
  show "bytesOf (rangesWithData s') \<subseteq> bytesOf (rangesWithData s)"
  proof (cases "numberOfBlocks s < enat (length L)")
    case True
    then obtain h rest where hr: "L = h # rest" by (cases L) (auto simp: zero_enat_def [symmetric])
    have "h * blockSize s \<le> (h + 1) * blockSize s" using B by (simp add: algebra_simps)
    then have "bytesOf (substract (rangesWithData s) [mkRange (h * blockSize s) ((h + 1) * blockSize s)])
        = bytesOf (rangesWithData s) - {h * blockSize s ..< (h + 1) * blockSize s}"
      using bytesOf_substract_single [of "mkRange (h * blockSize s) ((h + 1) * blockSize s)"]
      by (simp add: mkRange_def)
    then show ?thesis
      using True hr by (auto simp: s' s3_def st2 L2 bytesOf_simplify)
  next
    case False
    then show ?thesis by (simp add: s' s3_def st2 L2)
  qed
  show "rangesWithData s' = rangesWithData s" if "numberOfBlocks s = \<infinity>"
    using that by (simp add: s' s3_def st2)
  show "int (length b) = newBlockSize s k \<and> blocks s' k = Some b" if "r = Inr b" for b
    using that g res len3 unfolding s' by (auto split: option.splits)
qed


section \<open>VirtualLRUBuffer: a copy that runs past the end of the buffer\<close>

lemma block_bounds:
  assumes "0 < blockSize s" "0 \<le> p" "p < byteLength s"
  shows "(p div blockSize s) * blockSize s \<le> p"
    and "p < (p div blockSize s) * blockSize s + newBlockSize s (p div blockSize s)"
    and "(p div blockSize s) * blockSize s + newBlockSize s (p div blockSize s) \<le> byteLength s"
proof -
  let ?B = "blockSize s" and ?k = "p div blockSize s" and ?n = "byteLength s"
  have p: "p = ?k * ?B + p mod ?B" by simp
  have m: "0 \<le> p mod ?B" "p mod ?B < ?B" using assms(1) by simp_all
  show lo: "?k * ?B \<le> p" using p m by linarith
  have "p < ?k * ?B + ?B" using p m by linarith
  then have hi: "p < (?k + 1) * ?B" by (simp add: algebra_simps)
  show "p < ?k * ?B + newBlockSize s ?k"
  proof (cases "(?k + 1) * ?B > ?n")
    case True
    have "?n mod ?B = ?n - ?k * ?B"
    proof (rule int_mod_pos_eq)
      show "?n = ?B * ?k + (?n - ?k * ?B)" by simp
      show "0 \<le> ?n - ?k * ?B" using lo assms(3) by simp
      show "?n - ?k * ?B < ?B" using True by (simp add: algebra_simps)
    qed
    then show ?thesis using True assms(3) by (simp add: newBlockSize_def)
  next
    case False
    then show ?thesis using hi by (simp add: newBlockSize_def algebra_simps)
  qed
  show "?k * ?B + newBlockSize s ?k \<le> ?n"
  proof (cases "(?k + 1) * ?B > ?n")
    case True
    have "?n mod ?B = ?n - ?k * ?B"
    proof (rule int_mod_pos_eq)
      show "?n = ?B * ?k + (?n - ?k * ?B)" by simp
      show "0 \<le> ?n - ?k * ?B" using lo assms(3) by simp
      show "?n - ?k * ?B < ?B" using True by (simp add: algebra_simps)
    qed
    then show ?thesis using True by (simp add: newBlockSize_def)
  next
    case False
    then show ?thesis by (simp add: newBlockSize_def algebra_simps)
  qed
qed

lemma newBlockSize_cong:
  "byteLength s' = byteLength s \<Longrightarrow> blockSize s' = blockSize s \<Longrightarrow>
   newBlockSize s' k = newBlockSize s k"
  by (simp add: newBlockSize_def)

lemma calculatePosition_outside:
  "p < 0 \<or> byteLength s \<le> p \<Longrightarrow> calculatePosition s p = (Inl CalculatePositionInvalidInput, s)"
  by (auto simp: calculatePosition_def)

lemma calculatePosition_inside:
  assumes "0 \<le> p" "p < byteLength s"
  shows "calculatePosition s p =
    (case getBlock s (p div blockSize s) of
       (Inl e, s1) \<Rightarrow> (Inl e, s1)
     | (Inr block, s1) \<Rightarrow>
         (Inr (p div blockSize s, p - (p div blockSize s) * blockSize s,
               int (length block) - (p - (p div blockSize s) * blockSize s)), s1))"
  using assms by (simp add: calculatePosition_def Let_def)

lemma wellFormed_store:
  assumes "wellFormed s" "blocks s k = Some b" "length b' = length b"
  shows "wellFormed (s\<lparr>blocks := (blocks s)(k \<mapsto> b')\<rparr>)"
  using assms by (auto simp: wellFormed_def newBlockSize_def)

lemma copyFromLoop_past_end:
  assumes "wellFormed s" "0 \<le> p" "p \<le> byteLength s" "byteLength s < e"
  shows "\<exists>err s'. copyFromLoop src t e p s = Some (Inl err, s') \<and>
           bytesOf (rangesWithData s') \<subseteq> bytesOf (rangesWithData s) \<and>
           (numberOfBlocks s = \<infinity> \<longrightarrow> rangesWithData s' = rangesWithData s)"
  using assms
proof (induction "nat (byteLength s - p)" arbitrary: p s rule: less_induct)
  case less
  note wf = \<open>wellFormed s\<close>
  have pe: "p < e" using less.prems by simp
  show ?case
  proof (cases "p = byteLength s")
    case True
    then have "calculatePosition s p = (Inl CalculatePositionInvalidInput, s)"
      by (simp add: calculatePosition_outside)
    then show ?thesis
      using pe by (subst copyFromLoop.simps) simp
  next
    case False
    then have plt: "p < byteLength s" using less.prems by simp
    let ?k = "p div blockSize s"
    let ?pib = "p - ?k * blockSize s"
    have B: "0 < blockSize s" using wf by (simp add: wellFormed_def)
    obtain r1 s1 where g1: "getBlock s ?k = (r1, s1)" by (cases "getBlock s ?k")
    note G1 = getBlock_general [OF wf g1]
    show ?thesis
    proof (cases r1)
      case (Inl err)
      then have "calculatePosition s p = (Inl err, s1)"
        using g1 less.prems(2) plt by (simp add: calculatePosition_inside)
      then have "copyFromLoop src t e p s = Some (Inl err, s1)"
        using pe by (subst copyFromLoop.simps) simp
      then show ?thesis using G1(5,6) by simp
    next
      case (Inr block)
      have lb: "int (length block) = newBlockSize s ?k" using G1(7) Inr by simp
      have cp: "calculatePosition s p = (Inr (?k, ?pib, int (length block) - ?pib), s1)"
        using g1 Inr less.prems(2) plt by (simp add: calculatePosition_inside)
      obtain r2 s2 where g2: "getBlock s1 ?k = (r2, s2)" by (cases "getBlock s1 ?k")
      note G2 = getBlock_general [OF G1(1) g2]
      show ?thesis
      proof (cases r2)
        case (Inl err)
        then have "copyFromLoop src t e p s = Some (Inl err, s2)"
          using pe cp g2 by (subst copyFromLoop.simps) simp
        then show ?thesis using G1(4,5,6) G2(5,6) by auto
      next
        case r2: (Inr block2)
        let ?p' = "p + (int (length block) - ?pib)"
        let ?s' = "s2\<lparr>blocks := (blocks s2)(?k \<mapsto>
            copy src block2 (nat ?pib) (nat (p - t)))\<rparr>"
        have step: "copyFromLoop src t e p s = copyFromLoop src t e ?p' ?s'"
          using pe cp g2 r2 by (subst copyFromLoop.simps) simp
        have st: "byteLength ?s' = byteLength s" "blockSize ?s' = blockSize s"
          "numberOfBlocks ?s' = numberOfBlocks s" "rangesWithData ?s' = rangesWithData s2"
          using G1(2,3,4) G2(2,3,4) by simp_all
        have wf': "wellFormed ?s'"
          using G2(1) G2(7) [OF r2] by (intro wellFormed_store) (simp_all add: length_copy)
        have p': "?p' = ?k * blockSize s + newBlockSize s ?k" using lb by simp
        have bnd: "p < ?p'" "?p' \<le> byteLength s"
          using block_bounds [OF B less.prems(2) plt] p' by simp_all
        have ih: "\<exists>err s'. copyFromLoop src t e ?p' ?s' = Some (Inl err, s') \<and>
           bytesOf (rangesWithData s') \<subseteq> bytesOf (rangesWithData ?s') \<and>
           (numberOfBlocks ?s' = \<infinity> \<longrightarrow> rangesWithData s' = rangesWithData ?s')"
        proof (rule less.hyps)
          show "nat (byteLength ?s' - ?p') < nat (byteLength s - p)"
            using bnd plt st(1) by simp
          show "wellFormed ?s'" by (rule wf')
          show "0 \<le> ?p'" using bnd less.prems(2) by simp
          show "?p' \<le> byteLength ?s'" using bnd st(1) by simp
          show "byteLength ?s' < e" using less.prems(4) st(1) by simp
        qed
        from ih show ?thesis
        proof (elim exE conjE)
          fix err s'
          assume r: "copyFromLoop src t e ?p' ?s' = Some (Inl err, s')"
            "bytesOf (rangesWithData s') \<subseteq> bytesOf (rangesWithData ?s')"
            "numberOfBlocks ?s' = \<infinity> \<longrightarrow> rangesWithData s' = rangesWithData ?s'"
          have a: "bytesOf (rangesWithData s') \<subseteq> bytesOf (rangesWithData s)"
            using r(2) G1(5) G2(5) unfolding st(4) by blast
          have b: "numberOfBlocks s = \<infinity> \<longrightarrow> rangesWithData s' = rangesWithData s"
            using r(3) G1(4,6) G2(6) unfolding st(3,4) by simp
          have c: "copyFromLoop src t e p s = Some (Inl err, s')"
            unfolding step by (rule r(1))
          show ?thesis by (intro exI [of _ err] exI [of _ s'] conjI c a b)
        qed
      qed
    qed
  qed
qed


subsection \<open>Well-formedness is an invariant of the buffer operations\<close>

text \<open>
  Whatever \<open>copyFrom\<close> and \<open>slice\<close> return, and whether they return a value or an error,
  they leave a well-formed buffer well-formed. A new buffer is well-formed, so every buffer
  that the operations reach is.
\<close>

lemma calculatePosition_wellFormed:
  assumes "wellFormed s" "calculatePosition s p = (r, s')"
  shows "wellFormed s'"
proof (cases "p < 0 \<or> byteLength s \<le> p")
  case True
  then show ?thesis using assms by (simp add: calculatePosition_outside)
next
  case False
  obtain r1 s1 where g: "getBlock s (p div blockSize s) = (r1, s1)"
    by (cases "getBlock s (p div blockSize s)")
  have "s' = s1"
    using assms(2) False g by (cases r1) (simp_all add: calculatePosition_inside)
  then show ?thesis using getBlock_general(1) [OF assms(1) g] by simp
qed

lemma copyFromLoop_wellFormed_aux:
  assumes "copyFromLoop src t e p s = Some y"
  shows "wellFormed s \<longrightarrow> wellFormed (snd y)"
  using assms
proof (induction rule: copyFromLoop.raw_induct [rotated 1, consumes 1, case_names step])
  case (step copyFromLoop' source targetStart rangeEnd position s y)
  note 1 = step
  show ?case
  proof
    assume wf: "wellFormed s"
    show "wellFormed (snd y)"
    proof (cases "position < rangeEnd")
      case False
      then show ?thesis using 1(2) wf by auto
    next
      case True
      obtain r1 s1 where c: "calculatePosition s position = (r1, s1)"
        by (cases "calculatePosition s position")
      have wf1: "wellFormed s1" by (rule calculatePosition_wellFormed [OF wf c])
      show ?thesis
      proof (cases r1)
        case (Inl err)
        then show ?thesis using 1(2) True c wf1 by auto
      next
        case (Inr pos)
        obtain k pib rem where pos: "pos = (k, pib, rem)" by (cases pos)
        obtain r2 s2 where g: "getBlock s1 k = (r2, s2)" by (cases "getBlock s1 k")
        note G = getBlock_general [OF wf1 g]
        show ?thesis
        proof (cases r2)
          case (Inl err)
          then show ?thesis using 1(2) True c Inr pos g G(1) by auto
        next
          case r2: (Inr block)
          let ?s' = "s2\<lparr>blocks := (blocks s2)(k \<mapsto>
              copy source block (nat pib) (nat (position - targetStart)))\<rparr>"
          have "wellFormed ?s'"
            using G(1) G(7) [OF r2] by (intro wellFormed_store) (simp_all add: length_copy)
          moreover have "copyFromLoop' source targetStart rangeEnd (position + rem) ?s' = Some y"
            using 1(2) True c Inr pos g r2 by simp
          ultimately show ?thesis using 1(1) by blast
        qed
      qed
    qed
  qed
qed

lemma copyFromLoop_wellFormed:
  assumes "copyFromLoop src t e p s = Some y" "wellFormed s"
  shows "wellFormed (snd y)"
  using copyFromLoop_wellFormed_aux [OF assms(1)] assms(2) by simp

lemma copyFrom_wellFormed:
  assumes "wellFormed s" "copyFrom s source targetStart = Some (r, s')"
  shows "wellFormed s'"
proof (cases "targetStart < 0 \<or> byteLength s \<le> targetStart")
  case True
  then show ?thesis using assms by (auto simp: copyFrom_def)
next
  case False
  then obtain y where y: "copyFromLoop source targetStart (targetStart + int (length source))
      targetStart s = Some y"
    using assms(2) by (auto simp: copyFrom_def Let_def mkRange_def split: option.splits)
  have wf: "wellFormed (snd y)" by (rule copyFromLoop_wellFormed [OF y assms(1)])
  show ?thesis
    using assms(2) False y wf
    by (cases y; cases "fst y")
       (auto simp: copyFrom_def Let_def mkRange_def wellFormed_def newBlockSize_def)
qed

lemma sliceLoop_wellFormed_aux:
  assumes "sliceLoop st e p res s = Some y"
  shows "wellFormed s \<longrightarrow> wellFormed (snd y)"
  using assms
proof (induction rule: sliceLoop.raw_induct [rotated 1, consumes 1, case_names step])
  case (step sliceLoop' start endPos position result s y)
  show ?case
  proof
    assume wf: "wellFormed s"
    show "wellFormed (snd y)"
    proof (cases "position < endPos")
      case False
      then show ?thesis using step(2) wf by auto
    next
      case True
      obtain r1 s1 where c: "calculatePosition s position = (r1, s1)"
        by (cases "calculatePosition s position")
      have wf1: "wellFormed s1" by (rule calculatePosition_wellFormed [OF wf c])
      show ?thesis
      proof (cases r1)
        case (Inl err)
        then show ?thesis using step(2) True c wf1 by auto
      next
        case (Inr pos)
        obtain k pib rem where pos: "pos = (k, pib, rem)" by (cases pos)
        obtain r2 s2 where g: "getBlock s1 k = (r2, s2)" by (cases "getBlock s1 k")
        note G = getBlock_general [OF wf1 g]
        show ?thesis
        proof (cases r2)
          case (Inl err)
          then show ?thesis using step(2) True c Inr pos g G(1) by auto
        next
          case r2: (Inr block)
          have "sliceLoop' start endPos (position + rem)
              (copy block result (nat (position - start)) (nat pib)) s2 = Some y"
            using step(2) True c Inr pos g r2 by simp
          then show ?thesis using step(1) G(1) by blast
        qed
      qed
    qed
  qed
qed

lemma slice_wellFormed:
  assumes "wellFormed s" "slice s start endPos = Some (r, s')"
  shows "wellFormed s'"
proof (cases "start < 0 \<or> endPos > byteLength s \<or> endPos - start \<le> 0
    \<or> endPos - start > kMaxLength \<or> \<not> hasData s start endPos")
  case True
  then show ?thesis using assms by (auto simp: slice_def Let_def split: if_splits)
next
  case False
  obtain r1 s1 where c: "calculatePosition s start = (r1, s1)"
    by (cases "calculatePosition s start")
  have wf1: "wellFormed s1" by (rule calculatePosition_wellFormed [OF assms(1) c])
  show ?thesis
  proof (cases r1)
    case (Inl err)
    then show ?thesis using assms(2) False c wf1 by (auto simp: slice_def Let_def)
  next
    case (Inr pos)
    obtain k pib rem where pos: "pos = (k, pib, rem)" by (cases pos)
    show ?thesis
    proof (cases "endPos - start \<le> rem")
      case True
      obtain r2 s2 where g: "getBlock s1 k = (r2, s2)" by (cases "getBlock s1 k")
      have "s' = s2"
        using assms(2) False c Inr pos True g by (cases r2) (auto simp: slice_def Let_def)
      then show ?thesis using getBlock_general(1) [OF wf1 g] by simp
    next
      case big: False
      have "sliceLoop start endPos start (replicate (nat (endPos - start)) 0) s1 = Some (r, s')"
        using assms(2) False c Inr pos big by (auto simp: slice_def Let_def)
      then show ?thesis using sliceLoop_wellFormed_aux wf1 by fastforce
    qed
  qed
qed


section \<open>VirtualLRUBuffer: touching blocks without losing the ones just written\<close>

lemma length_filter_neq_distinct:
  "distinct xs \<Longrightarrow> k \<in> set xs \<Longrightarrow> Suc (length (filter (\<lambda>x. x \<noteq> k) xs)) = length xs"
proof (induction xs)
  case Nil
  then show ?case by simp
next
  case (Cons x xs)
  show ?case
  proof (cases "x = k")
    case True
    then have "filter (\<lambda>x. x \<noteq> k) xs = xs"
      using Cons.prems(1) by (auto simp: filter_id_conv)
    then show ?thesis using True by simp
  next
    case False
    then show ?thesis using Cons by simp
  qed
qed

lemma getBlock_resident:
  assumes wf: "wellFormed s" and mem: "k \<in> set (lastAccessedBlockIndices s)"
    and res: "blocks s k = Some b"
  shows "getBlock s k =
    (Inr b, s\<lparr>lastAccessedBlockIndices :=
               filter (\<lambda>idx. idx \<noteq> k) (lastAccessedBlockIndices s) @ [k]\<rparr>)"
proof -
  have "length (filter (\<lambda>idx. idx \<noteq> k) (lastAccessedBlockIndices s) @ [k])
      = length (lastAccessedBlockIndices s)"
    using length_filter_neq_distinct [OF _ mem] wf by (simp add: wellFormed_def)
  moreover have "enat (length (lastAccessedBlockIndices s)) \<le> numberOfBlocks s"
    using wf by (simp add: wellFormed_def)
  ultimately have "\<not> numberOfBlocks s
      < enat (length (filter (\<lambda>idx. idx \<noteq> k) (lastAccessedBlockIndices s) @ [k]))"
    by (simp add: not_less)
  then show ?thesis
    using res by (simp add: getBlock_def Let_def)
qed

lemma getBlock_touch:
  assumes wf: "wellFormed s" and L: "lastAccessedBlockIndices s = pre @ T"
    and kT: "k \<notin> set T" and cap: "enat (Suc (length T)) \<le> numberOfBlocks s"
  shows "\<exists>b s' pre'. getBlock s k = (Inr b, s') \<and> wellFormed s' \<and>
      byteLength s' = byteLength s \<and> blockSize s' = blockSize s \<and>
      numberOfBlocks s' = numberOfBlocks s \<and>
      lastAccessedBlockIndices s' = pre' @ T @ [k] \<and>
      blocks s' k = Some b \<and> int (length b) = newBlockSize s k \<and>
      (\<forall>i \<in> set T. blocks s' i = blocks s i)"
proof -
  obtain r s' where g: "getBlock s k = (r, s')" by (cases "getBlock s k")
  note G = getBlock_general [OF wf g]
  let ?L = "filter (\<lambda>idx. idx \<noteq> k) pre @ T @ [k]"
  have fT: "filter (\<lambda>idx. idx \<noteq> k) T = T" using kT by (auto simp: filter_id_conv)
  have dL: "distinct ?L" using wf L kT by (auto simp: wellFormed_def)
  define b where "b = (case blocks s k of None \<Rightarrow> replicate (nat (newBlockSize s k)) 0
      | Some b0 \<Rightarrow> b0)"
  have facts: "r = Inr b \<and> (\<exists>pre'. lastAccessedBlockIndices s' = pre' @ T @ [k]) \<and>
      (\<forall>i \<in> set T. blocks s' i = blocks s i)"
  proof (cases "numberOfBlocks s < enat (length ?L)")
    case False
    then have "(r, s') = (Inr b,
        (if blocks s k = None
         then s\<lparr>blocks := (blocks s)(k \<mapsto> replicate (nat (newBlockSize s k)) 0)\<rparr> else s)
        \<lparr>lastAccessedBlockIndices := ?L\<rparr>)"
      using g [symmetric] L fT by (auto simp: getBlock_def Let_def b_def)
    then show ?thesis using kT by auto
  next
    case True
    have "filter (\<lambda>idx. idx \<noteq> k) pre \<noteq> []"
    proof
      assume "filter (\<lambda>idx. idx \<noteq> k) pre = []"
      then have "length ?L = Suc (length T)" by simp
      then show False using True cap by (simp add: not_less [symmetric])
    qed
    then obtain h pre' where hp: "filter (\<lambda>idx. idx \<noteq> k) pre = h # pre'"
      by (cases "filter (\<lambda>idx. idx \<noteq> k) pre") auto
    have hk: "h \<noteq> k" "h \<notin> set T"
      using dL hp by auto
    have "(r, s') = (Inr b,
        (if blocks s k = None
         then s\<lparr>blocks := (blocks s)(k \<mapsto> replicate (nat (newBlockSize s k)) 0)\<rparr> else s)
        \<lparr>lastAccessedBlockIndices := pre' @ T @ [k],
          blocks := ((if blocks s k = None
             then (blocks s)(k \<mapsto> replicate (nat (newBlockSize s k)) 0)
             else blocks s))(h := None),
          rangesWithData := simplify (substract (rangesWithData s)
             [mkRange (h * blockSize s) ((h + 1) * blockSize s)])\<rparr>)"
      using g [symmetric] L fT True hp hk by (auto simp: getBlock_def Let_def b_def)
    then show ?thesis using kT hk by auto
  qed
  then obtain pre' where "lastAccessedBlockIndices s' = pre' @ T @ [k]" by blast
  then show ?thesis
    using g facts G by (intro exI [of _ b] exI [of _ s'] exI [of _ pre']) simp
qed


section \<open>VirtualLRUBuffer: a copy that fits into the resident blocks\<close>

lemma block_end_cases:
  assumes "0 < blockSize s" "0 \<le> p" "p < byteLength s"
  shows "(p div blockSize s) * blockSize s + newBlockSize s (p div blockSize s)
           = (p div blockSize s + 1) * blockSize s
       \<or> (p div blockSize s) * blockSize s + newBlockSize s (p div blockSize s) = byteLength s"
proof -
  let ?B = "blockSize s" and ?k = "p div blockSize s" and ?n = "byteLength s"
  show ?thesis
  proof (cases "(?k + 1) * ?B > ?n")
    case True
    have "?n mod ?B = ?n - ?k * ?B"
    proof (rule int_mod_pos_eq)
      show "?n = ?B * ?k + (?n - ?k * ?B)" by simp
      show "0 \<le> ?n - ?k * ?B" using block_bounds(1) [OF assms] assms(3) by simp
      show "?n - ?k * ?B < ?B" using True by (simp add: algebra_simps)
    qed
    then show ?thesis using True by (simp add: newBlockSize_def)
  next
    case False
    then show ?thesis by (simp add: newBlockSize_def algebra_simps)
  qed
qed

lemma div_in_block:
  fixes j k B :: int
  assumes "0 < B" "k * B \<le> j" "j < (k + 1) * B"
  shows "j div B = k"
proof (rule int_div_pos_eq)
  show "j = B * k + (j - k * B)" by simp
  show "0 \<le> j - k * B" using assms(2) by simp
  show "j - k * B < B" using assms(3) by (simp add: algebra_simps)
qed

lemma byteAt_SomeI:
  assumes "blocks s (j div blockSize s) = Some b"
    and "j div blockSize s \<in> set (lastAccessedBlockIndices s)"
    and "nat (j - (j div blockSize s) * blockSize s) < length b"
    and "b ! nat (j - (j div blockSize s) * blockSize s) = v"
  shows "byteAt s j = Some v"
  using assms by (simp add: byteAt_def Let_def)

lemma byteAt_SomeD:
  assumes "byteAt s j = Some v"
  shows "\<exists>b. blocks s (j div blockSize s) = Some b \<and>
      j div blockSize s \<in> set (lastAccessedBlockIndices s) \<and>
      nat (j - (j div blockSize s) * blockSize s) < length b \<and>
      b ! nat (j - (j div blockSize s) * blockSize s) = v"
  using assms by (auto simp: byteAt_def Let_def split: option.splits if_splits)

lemma copy_iteration:
  fixes s :: VirtualLRUBuffer and p t e :: int
  defines "B \<equiv> blockSize s" and "k \<equiv> p div blockSize s"
  assumes wf: "wellFormed s" and L: "lastAccessedBlockIndices s = pre @ T"
    and kT: "k \<notin> set T" and cap: "enat (Suc (length T)) \<le> numberOfBlocks s"
    and p: "0 \<le> p" "p < byteLength s" "p < e" "t \<le> p"
    and e: "e = t + int (length src)"
  shows "\<exists>s' pre' b.
     copyFromLoop src t e p s = copyFromLoop src t e (k * B + newBlockSize s k) s' \<and>
     wellFormed s' \<and> byteLength s' = byteLength s \<and> blockSize s' = blockSize s \<and>
     numberOfBlocks s' = numberOfBlocks s \<and>
     lastAccessedBlockIndices s' = pre' @ T @ [k] \<and>
     (\<forall>i \<in> set T. blocks s' i = blocks s i) \<and>
     blocks s' k = Some b \<and> int (length b) = newBlockSize s k \<and>
     (\<forall>j. p \<le> j \<and> j < k * B + newBlockSize s k \<and> j < e \<longrightarrow>
          b ! nat (j - k * B) = src ! nat (j - t))"
proof -
  have Bpos: "0 < B" using wf by (simp add: wellFormed_def B_def)
  from getBlock_touch [OF wf L kT cap] obtain b1 s1 pre1 where
    g1: "getBlock s k = (Inr b1, s1)" and wf1: "wellFormed s1"
    and st1: "byteLength s1 = byteLength s" "blockSize s1 = blockSize s"
      "numberOfBlocks s1 = numberOfBlocks s"
    and L1: "lastAccessedBlockIndices s1 = pre1 @ T @ [k]"
    and b1: "blocks s1 k = Some b1" "int (length b1) = newBlockSize s k"
    and T1: "\<forall>i \<in> set T. blocks s1 i = blocks s i"
    by blast
  let ?pib = "p - k * B"
  have cp: "calculatePosition s p = (Inr (k, ?pib, int (length b1) - ?pib), s1)"
    using g1 p(1,2) by (simp add: calculatePosition_inside k_def B_def)
  have d1: "distinct (lastAccessedBlockIndices s1)" using wf1 by (simp add: wellFormed_def)
  have nk: "k \<notin> set (pre1 @ T)" using d1 unfolding L1 by auto
  have "filter (\<lambda>idx. idx \<noteq> k) (pre1 @ T) = pre1 @ T"
    unfolding filter_id_conv using nk by blast
  then have f1: "filter (\<lambda>idx. idx \<noteq> k) (lastAccessedBlockIndices s1) @ [k]
      = lastAccessedBlockIndices s1"
    unfolding L1 by simp
  have g2: "getBlock s1 k = (Inr b1, s1)"
    using getBlock_resident [OF wf1 _ b1(1)] L1 f1 by simp
  let ?b = "copy src b1 (nat ?pib) (nat (p - t))"
  let ?s' = "s1\<lparr>blocks := (blocks s1)(k \<mapsto> ?b)\<rparr>"
  let ?p' = "k * B + newBlockSize s k"
  have pp: "p + (int (length b1) - ?pib) = ?p'" using b1(2) by simp
  have "copyFromLoop src t e p s = copyFromLoop src t e (p + (int (length b1) - ?pib)) ?s'"
    using p(3) cp g2 by (subst copyFromLoop.simps) simp
  then have step: "copyFromLoop src t e p s = copyFromLoop src t e ?p' ?s'"
    unfolding pp .
  have wf': "wellFormed ?s'"
    using wf1 b1(1) by (intro wellFormed_store) (simp_all add: length_copy)
  have lo: "k * B \<le> p" using block_bounds(1) [OF _ p(1,2)] Bpos by (simp add: k_def B_def)
  have content: "?b ! nat (j - k * B) = src ! nat (j - t)"
    if j: "p \<le> j" "j < ?p'" "j < e" for j
  proof -
    have idx: "nat (j - k * B) < length b1" using j(1,2) lo b1(2) by linarith
    have inr: "nat ?pib \<le> nat (j - k * B)" using j(1) lo by simp
    have upper: "nat (j - k * B) < nat ?pib + (length src - nat (p - t))"
      using j p(4) lo e by linarith
    have "?b ! nat (j - k * B) =
        (if nat ?pib \<le> nat (j - k * B) \<and>
            nat (j - k * B) < nat ?pib + (length src - nat (p - t))
         then src ! (nat (p - t) + (nat (j - k * B) - nat ?pib)) else b1 ! nat (j - k * B))"
      using idx by (rule nth_copy)
    then have "?b ! nat (j - k * B) = src ! (nat (p - t) + (nat (j - k * B) - nat ?pib))"
      using inr upper by (simp only: simp_thms if_True)
    moreover have "nat (p - t) + (nat (j - k * B) - nat ?pib) = nat (j - t)"
      using j(1) p(4) lo by linarith
    ultimately show ?thesis by simp
  qed
  show ?thesis
  proof (intro exI [of _ ?s'] exI [of _ pre1] exI [of _ ?b] conjI)
    show "copyFromLoop src t e p s = copyFromLoop src t e ?p' ?s'" by (rule step)
    show "wellFormed ?s'" by (rule wf')
    show "byteLength ?s' = byteLength s" "blockSize ?s' = blockSize s"
      "numberOfBlocks ?s' = numberOfBlocks s" using st1 by simp_all
    show "lastAccessedBlockIndices ?s' = pre1 @ T @ [k]" using L1 by simp
    show "\<forall>i \<in> set T. blocks ?s' i = blocks s i" using T1 kT by auto
    show "blocks ?s' k = Some ?b" by simp
    show "int (length ?b) = newBlockSize s k" using b1(2) by (simp add: length_copy)
    show "\<forall>j. p \<le> j \<and> j < ?p' \<and> j < e \<longrightarrow> ?b ! nat (j - k * B) = src ! nat (j - t)"
      using content by blast
  qed
qed

lemma copyFromLoop_complete:
  assumes "wellFormed s" and "e = t + int (length src)"
    and "0 \<le> t" "t \<le> p" "e \<le> byteLength s"
    and "lastAccessedBlockIndices s = pre @ [t div blockSize s .. kc - 1]"
    and "t div blockSize s \<le> kc"
    and "p < e \<longrightarrow> p div blockSize s = kc \<and> (p = t \<or> p = kc * blockSize s)"
    and "enat (blocksTouched s t (int (length src))) \<le> numberOfBlocks s"
    and "\<forall>j. t \<le> j \<and> j < p \<and> j < e \<longrightarrow> byteAt s j = Some (src ! nat (j - t))"
  shows "\<exists>s'. copyFromLoop src t e p s = Some (Inr (), s') \<and> wellFormed s' \<and>
      byteLength s' = byteLength s \<and> blockSize s' = blockSize s \<and>
      numberOfBlocks s' = numberOfBlocks s \<and>
      (\<forall>j. t \<le> j \<and> j < e \<longrightarrow> byteAt s' j = Some (src ! nat (j - t)))"
  using assms
proof (induction "nat (e - p)" arbitrary: p s kc pre rule: less_induct)
  case less
  note wf = less.prems(1) and e = less.prems(2) and L = less.prems(6)
    and cont = less.prems(10)
  let ?B = "blockSize s"
  have Bpos: "0 < ?B" using wf by (simp add: wellFormed_def)
  show ?case
  proof (cases "p < e")
    case False
    then have "copyFromLoop src t e p s = Some (Inr (), s)"
      by (subst copyFromLoop.simps) simp
    moreover have "\<forall>j. t \<le> j \<and> j < e \<longrightarrow> byteAt s j = Some (src ! nat (j - t))"
      using cont False by auto
    ultimately show ?thesis using wf by simp
  next
    case True
    then have kc: "p div ?B = kc" and pcase: "p = t \<or> p = kc * ?B"
      using less.prems(8) by simp_all
    have p0: "0 \<le> p" using less.prems(3,4) by simp
    have plt: "p < byteLength s" using True less.prems(5) by simp
    let ?T = "[t div ?B .. kc - 1]"
    have kT: "p div ?B \<notin> set ?T" using kc by simp
    have "p div ?B \<le> (e - 1) div ?B" using True Bpos by (intro zdiv_mono1) simp_all
    then have "Suc (length ?T) \<le> blocksTouched s t (int (length src))"
      using kc less.prems(7) e by (simp add: blocksTouched_def)
    then have cap: "enat (Suc (length ?T)) \<le> numberOfBlocks s"
      using less.prems(9) by (meson enat_ord_simps(1) order_trans)
    let ?p' = "kc * ?B + newBlockSize s kc"
    from copy_iteration [OF wf L kT cap p0 plt True less.prems(4) e]
    obtain s' pre' b where
      step: "copyFromLoop src t e p s = copyFromLoop src t e ?p' s'"
      and wf': "wellFormed s'"
      and st: "byteLength s' = byteLength s" "blockSize s' = blockSize s"
        "numberOfBlocks s' = numberOfBlocks s"
      and L': "lastAccessedBlockIndices s' = pre' @ ?T @ [kc]"
      and keep: "\<forall>i \<in> set ?T. blocks s' i = blocks s i"
      and b: "blocks s' kc = Some b" "int (length b) = newBlockSize s kc"
      and new: "\<forall>j. p \<le> j \<and> j < ?p' \<and> j < e \<longrightarrow> b ! nat (j - kc * ?B) = src ! nat (j - t)"
      unfolding kc by blast
    have bb: "kc * ?B \<le> p" "p < ?p'" "?p' \<le> byteLength s"
      using block_bounds [OF Bpos p0 plt] unfolding kc by simp_all
    have ec: "?p' = (kc + 1) * ?B \<or> ?p' = byteLength s"
      using block_end_cases [OF Bpos p0 plt] unfolding kc by simp
    have "byteLength s mod ?B < ?B" using Bpos by simp
    then have "newBlockSize s kc \<le> ?B" by (simp add: newBlockSize_def)
    then have le_next: "?p' \<le> (kc + 1) * ?B"
      by (simp add: algebra_simps)
    have cont': "byteAt s' j = Some (src ! nat (j - t))" if j: "t \<le> j" "j < ?p'" "j < e" for j
    proof (cases "j < p")
      case True
      then have pk: "p = kc * ?B" using pcase j(1) by auto
      from cont j True have "byteAt s j = Some (src ! nat (j - t))" by simp
      from byteAt_SomeD [OF this] obtain bj where
        bj: "blocks s (j div ?B) = Some bj"
          "nat (j - (j div ?B) * ?B) < length bj"
          "bj ! nat (j - (j div ?B) * ?B) = src ! nat (j - t)"
        by blast
      have "(kc * ?B - 1) div ?B = kc - 1"
        using Bpos by (intro div_in_block) (simp_all add: algebra_simps)
      moreover have "j div ?B \<le> (kc * ?B - 1) div ?B"
        using True pk Bpos by (intro zdiv_mono1) simp_all
      ultimately have "j div ?B < kc" by simp
      moreover have "t div ?B \<le> j div ?B" using j(1) Bpos by (intro zdiv_mono1)
      ultimately have inT: "j div ?B \<in> set ?T" by simp
      show ?thesis
      proof (rule byteAt_SomeI)
        show "blocks s' (j div blockSize s') = Some bj" using keep inT bj(1) st(2) by simp
        show "j div blockSize s' \<in> set (lastAccessedBlockIndices s')"
          using inT L' st(2) by simp
        show "nat (j - j div blockSize s' * blockSize s') < length bj" using bj(2) st(2) by simp
        show "bj ! nat (j - j div blockSize s' * blockSize s') = src ! nat (j - t)"
          using bj(3) st(2) by simp
      qed
    next
      case False
      then have pj: "p \<le> j" by simp
      have jk: "j div ?B = kc"
        using Bpos bb(1) pj j(2) le_next by (intro div_in_block) simp_all
      show ?thesis
      proof (rule byteAt_SomeI)
        show "blocks s' (j div blockSize s') = Some b" using b(1) jk st(2) by simp
        show "j div blockSize s' \<in> set (lastAccessedBlockIndices s')"
          using L' jk st(2) by simp
        show "nat (j - j div blockSize s' * blockSize s') < length b"
          using jk st(2) b(2) j(2) bb(1) pj by simp
        show "b ! nat (j - j div blockSize s' * blockSize s') = src ! nat (j - t)"
          using new pj j(2,3) jk st(2) by simp
      qed
    qed
    have "\<exists>s''. copyFromLoop src t e ?p' s' = Some (Inr (), s'') \<and> wellFormed s'' \<and>
      byteLength s'' = byteLength s' \<and> blockSize s'' = blockSize s' \<and>
      numberOfBlocks s'' = numberOfBlocks s' \<and>
      (\<forall>j. t \<le> j \<and> j < e \<longrightarrow> byteAt s'' j = Some (src ! nat (j - t)))"
    proof (rule less.hyps [where kc = "kc + 1" and pre = pre'])
      show "nat (e - ?p') < nat (e - p)" using bb(2) True by simp
      show "wellFormed s'" by (rule wf')
      show "e = t + int (length src)" by (rule e)
      show "0 \<le> t" by (rule less.prems(3))
      show "t \<le> ?p'" using less.prems(4) bb(2) by simp
      show "e \<le> byteLength s'" using less.prems(5) st(1) by simp
      have "[t div ?B .. kc] = ?T @ [kc]"
        using less.prems(7) by (simp add: upto_rec2)
      then show "lastAccessedBlockIndices s' = pre' @ [t div blockSize s' .. kc + 1 - 1]"
        using L' st(2) by simp
      show "t div blockSize s' \<le> kc + 1" using less.prems(7) st(2) by simp
      show "?p' < e \<longrightarrow> ?p' div blockSize s' = kc + 1 \<and> (?p' = t \<or> ?p' = (kc + 1) * blockSize s')"
      proof
        assume lt: "?p' < e"
        then have eq: "?p' = (kc + 1) * ?B" using ec bb(3) less.prems(5) by auto
        then show "?p' div blockSize s' = kc + 1 \<and> (?p' = t \<or> ?p' = (kc + 1) * blockSize s')"
          using Bpos st(2) by simp
      qed
      show "enat (blocksTouched s' t (int (length src))) \<le> numberOfBlocks s'"
        using less.prems(9) st by (simp add: blocksTouched_def)
      show "\<forall>j. t \<le> j \<and> j < ?p' \<and> j < e \<longrightarrow> byteAt s' j = Some (src ! nat (j - t))"
        using cont' by blast
    qed
    then show ?thesis unfolding step st by simp
  qed
qed


section \<open>VirtualLRUBuffer: reading back what was written\<close>

lemma wellFormed_touch:
  assumes wf: "wellFormed s" and mem: "k \<in> set (lastAccessedBlockIndices s)"
  shows "wellFormed (s\<lparr>lastAccessedBlockIndices :=
      filter (\<lambda>idx. idx \<noteq> k) (lastAccessedBlockIndices s) @ [k]\<rparr>)"
proof -
  have "length (filter (\<lambda>idx. idx \<noteq> k) (lastAccessedBlockIndices s) @ [k])
      = length (lastAccessedBlockIndices s)"
    using length_filter_neq_distinct [OF _ mem] wf by (simp add: wellFormed_def)
  then show ?thesis
    using wf by (auto simp: wellFormed_def newBlockSize_def)
qed

lemma byteAt_touch:
  assumes mem: "k \<in> set (lastAccessedBlockIndices s)"
  shows "byteAt (s\<lparr>lastAccessedBlockIndices :=
      filter (\<lambda>idx. idx \<noteq> k) (lastAccessedBlockIndices s) @ [k]\<rparr>) j = byteAt s j"
proof -
  show ?thesis
    using mem by (auto simp: byteAt_def Let_def split: option.splits)
qed

lemma sliceLoop_complete:
  assumes "wellFormed s"
    and "\<forall>j. t \<le> j \<and> j < e \<longrightarrow> byteAt s j = Some (src ! nat (j - t))"
    and "0 \<le> t" "t \<le> p" "e \<le> byteLength s" "e = t + int (length src)"
    and "length r = length src"
    and "\<forall>i. int i < p - t \<and> i < length src \<longrightarrow> r ! i = src ! i"
  shows "\<exists>s'. sliceLoop t e p r s = Some (Inr src, s')"
  using assms
proof (induction "nat (e - p)" arbitrary: p r s rule: less_induct)
  case less
  note wf = less.prems(1) and cont = less.prems(2) and e = less.prems(6)
    and lr = less.prems(7) and rs = less.prems(8)
  let ?B = "blockSize s"
  have Bpos: "0 < ?B" using wf by (simp add: wellFormed_def)
  show ?case
  proof (cases "p < e")
    case False
    have "r = src"
    proof (rule nth_equalityI)
      show "length r = length src" by (rule lr)
      fix i assume "i < length r"
      then show "r ! i = src ! i" using rs lr False e by simp
    qed
    then show ?thesis using False by (subst sliceLoop.simps) simp
  next
    case True
    have p0: "0 \<le> p" using less.prems(3,4) by simp
    have plt: "p < byteLength s" using True less.prems(5) by simp
    let ?k = "p div ?B"
    let ?pib = "p - ?k * ?B"
    from cont True less.prems(4) have "byteAt s p = Some (src ! nat (p - t))" by simp
    from byteAt_SomeD [OF this] obtain b where
      b: "blocks s ?k = Some b" "?k \<in> set (lastAccessedBlockIndices s)" by blast
    have lb: "int (length b) = newBlockSize s ?k" using wf b(1) by (simp add: wellFormed_def)
    let ?s1 = "s\<lparr>lastAccessedBlockIndices :=
        filter (\<lambda>idx. idx \<noteq> ?k) (lastAccessedBlockIndices s) @ [?k]\<rparr>"
    have g1: "getBlock s ?k = (Inr b, ?s1)" by (rule getBlock_resident [OF wf b(2) b(1)])
    have wf1: "wellFormed ?s1" by (rule wellFormed_touch [OF wf b(2)])
    have cp: "calculatePosition s p = (Inr (?k, ?pib, int (length b) - ?pib), ?s1)"
      using g1 p0 plt by (simp add: calculatePosition_inside)
    have mem1: "?k \<in> set (lastAccessedBlockIndices ?s1)" by simp
    let ?s2 = "?s1\<lparr>lastAccessedBlockIndices :=
        filter (\<lambda>idx. idx \<noteq> ?k) (lastAccessedBlockIndices ?s1) @ [?k]\<rparr>"
    have g2: "getBlock ?s1 ?k = (Inr b, ?s2)"
      using getBlock_resident [OF wf1 mem1] b(1) by simp
    have wf2: "wellFormed ?s2" by (rule wellFormed_touch [OF wf1 mem1])
    have ba2: "byteAt ?s2 j = byteAt s j" for j
      using byteAt_touch [OF mem1, of j] byteAt_touch [OF b(2), of j] by simp
    let ?r' = "copy b r (nat (p - t)) (nat ?pib)"
    let ?p' = "?k * ?B + newBlockSize s ?k"
    have pp: "p + (int (length b) - ?pib) = ?p'" using lb by simp
    have "sliceLoop t e p r s = sliceLoop t e (p + (int (length b) - ?pib)) ?r' ?s2"
      using True cp g2 by (subst sliceLoop.simps) simp
    then have step: "sliceLoop t e p r s = sliceLoop t e ?p' ?r' ?s2"
      unfolding pp .
    have bb: "?k * ?B \<le> p" "p < ?p'" "?p' \<le> byteLength s"
      using block_bounds [OF Bpos p0 plt] by simp_all
    have "byteLength s mod ?B < ?B" using Bpos by simp
    then have "newBlockSize s ?k \<le> ?B" by (simp add: newBlockSize_def)
    then have le_next: "?p' \<le> (?k + 1) * ?B" by (simp add: algebra_simps)
    have r': "?r' ! i = src ! i" if i: "int i < ?p' - t" "i < length src" for i
    proof (cases "int i < p - t")
      case True
      then have "\<not> (nat (p - t) \<le> i)" by simp
      moreover have "?r' ! i =
        (if nat (p - t) \<le> i \<and> i < nat (p - t) + (length b - nat ?pib)
         then b ! (nat ?pib + (i - nat (p - t))) else r ! i)"
        using i(2) lr by (intro nth_copy) simp
      ultimately have "?r' ! i = r ! i" by (simp only: simp_thms if_False)
      then show ?thesis using rs True i(2) by simp
    next
      case False
      let ?j = "t + int i"
      have j: "p \<le> ?j" "?j < ?p'" "?j < e" using False i e by simp_all
      have jk: "?j div ?B = ?k"
        using Bpos bb(1) j(1,2) le_next by (intro div_in_block) simp_all
      from cont j less.prems(4) have "byteAt s ?j = Some (src ! nat (?j - t))" by simp
      from byteAt_SomeD [OF this] b(1) have bj: "b ! nat (?j - ?k * ?B) = src ! i"
        unfolding jk by simp
      have c1: "nat (p - t) \<le> i" using False by simp
      have c2: "i < nat (p - t) + (length b - nat ?pib)"
        using j(2) lb bb(1,2) less.prems(4) by linarith
      have "?r' ! i =
        (if nat (p - t) \<le> i \<and> i < nat (p - t) + (length b - nat ?pib)
         then b ! (nat ?pib + (i - nat (p - t))) else r ! i)"
        using i(2) lr by (intro nth_copy) simp
      then have "?r' ! i = b ! (nat ?pib + (i - nat (p - t)))"
        using c1 c2 by (simp only: simp_thms if_True)
      moreover have "nat ?pib + (i - nat (p - t)) = nat (?j - ?k * ?B)"
        using c1 bb(1) less.prems(4) by linarith
      ultimately show ?thesis using bj by simp
    qed
    have "\<exists>s'. sliceLoop t e ?p' ?r' ?s2 = Some (Inr src, s')"
    proof (rule less.hyps)
      show "nat (e - ?p') < nat (e - p)" using bb(2) True by simp
      show "wellFormed ?s2" by (rule wf2)
      show "\<forall>j. t \<le> j \<and> j < e \<longrightarrow> byteAt ?s2 j = Some (src ! nat (j - t))"
        using cont unfolding ba2 .
      show "0 \<le> t" by (rule less.prems(3))
      show "t \<le> ?p'" using less.prems(4) bb(2) by simp
      show "e \<le> byteLength ?s2" using less.prems(5) by simp
      show "e = t + int (length src)" by (rule e)
      show "length ?r' = length src" using lr by (simp add: length_copy)
      show "\<forall>i. int i < ?p' - t \<and> i < length src \<longrightarrow> ?r' ! i = src ! i"
        using r' by blast
    qed
    then show ?thesis unfolding step .
  qed
qed

lemma slice_reads_content:
  assumes wf: "wellFormed s"
    and cont: "\<forall>j. t \<le> j \<and> j < t + int (length src) \<longrightarrow> byteAt s j = Some (src ! nat (j - t))"
    and t: "0 \<le> t" and ne: "src \<noteq> []"
    and fit: "t + int (length src) \<le> byteLength s"
    and small: "int (length src) \<le> kMaxLength"
    and has: "hasData s t (t + int (length src))"
  shows "\<exists>s'. slice s t (t + int (length src)) = Some (Inr src, s')"
proof -
  let ?e = "t + int (length src)"
  let ?B = "blockSize s"
  let ?k = "t div ?B"
  let ?pib = "t - ?k * ?B"
  have Bpos: "0 < ?B" using wf by (simp add: wellFormed_def)
  have len: "0 < int (length src)" using ne by simp
  have tlt: "t < byteLength s" using fit len by linarith
  from cont len have "byteAt s t = Some (src ! nat (t - t))" by simp
  from byteAt_SomeD [OF this] obtain b where
    b: "blocks s ?k = Some b" "?k \<in> set (lastAccessedBlockIndices s)" by blast
  have lb: "int (length b) = newBlockSize s ?k" using wf b(1) by (simp add: wellFormed_def)
  let ?s1 = "s\<lparr>lastAccessedBlockIndices :=
      filter (\<lambda>idx. idx \<noteq> ?k) (lastAccessedBlockIndices s) @ [?k]\<rparr>"
  have g1: "getBlock s ?k = (Inr b, ?s1)" by (rule getBlock_resident [OF wf b(2) b(1)])
  have wf1: "wellFormed ?s1" by (rule wellFormed_touch [OF wf b(2)])
  have cp: "calculatePosition s t = (Inr (?k, ?pib, int (length b) - ?pib), ?s1)"
    using g1 t tlt by (simp add: calculatePosition_inside)
  have mem1: "?k \<in> set (lastAccessedBlockIndices ?s1)" by simp
  have ba1: "byteAt ?s1 j = byteAt s j" for j by (rule byteAt_touch [OF b(2)])
  let ?s2 = "?s1\<lparr>lastAccessedBlockIndices :=
      filter (\<lambda>idx. idx \<noteq> ?k) (lastAccessedBlockIndices ?s1) @ [?k]\<rparr>"
  have g2: "getBlock ?s1 ?k = (Inr b, ?s2)"
    using getBlock_resident [OF wf1 mem1] b(1) by simp
  have guard: "\<not> (t < 0 \<or> ?e > byteLength s \<or> ?e - t \<le> 0 \<or> ?e - t > kMaxLength)"
    using t fit len small by simp
  have bb: "?k * ?B \<le> t" "t < ?k * ?B + newBlockSize s ?k"
    using block_bounds [OF Bpos t tlt] by simp_all
  have "byteLength s mod ?B < ?B" using Bpos by simp
  then have "newBlockSize s ?k \<le> ?B" by (simp add: newBlockSize_def)
  then have le_next: "?k * ?B + newBlockSize s ?k \<le> (?k + 1) * ?B" by (simp add: algebra_simps)
  show ?thesis
  proof (cases "?e - t \<le> int (length b) - ?pib")
    case True
    have "take (length src) (drop (nat ?pib) b) = src"
    proof (rule nth_equalityI)
      show "length (take (length src) (drop (nat ?pib) b)) = length src"
        using True bb(1) by simp
      fix i assume "i < length (take (length src) (drop (nat ?pib) b))"
      then have i: "i < length src" by simp
      let ?j = "t + int i"
      have j: "t \<le> ?j" "?j < ?e" using i by simp_all
      have "?j < ?k * ?B + newBlockSize s ?k" using True i lb by simp
      then have jk: "?j div ?B = ?k"
        using Bpos bb(1) le_next by (intro div_in_block) simp_all
      from cont j have "byteAt s ?j = Some (src ! nat (?j - t))" by simp
      from byteAt_SomeD [OF this] b(1) have bj: "b ! nat (?j - ?k * ?B) = src ! i"
        unfolding jk by simp
      have "nat ?pib + i = nat (?j - ?k * ?B)" using bb(1) by linarith
      moreover have "nat ?pib + i \<le> length b" using True i bb(1) by linarith
      ultimately show "take (length src) (drop (nat ?pib) b) ! i = src ! i"
        using i bj by simp
    qed
    then have "slice s t ?e = Some (Inr src, ?s2)"
      using guard has cp g2 True by (simp add: slice_def Let_def)
    then show ?thesis by blast
  next
    case False
    have "\<exists>s'. sliceLoop t ?e t (replicate (nat (?e - t)) 0) ?s1 = Some (Inr src, s')"
    proof (rule sliceLoop_complete)
      show "wellFormed ?s1" by (rule wf1)
      show "\<forall>j. t \<le> j \<and> j < ?e \<longrightarrow> byteAt ?s1 j = Some (src ! nat (j - t))"
        using cont unfolding ba1 .
      show "0 \<le> t" by (rule t)
      show "t \<le> t" by simp
      show "?e \<le> byteLength ?s1" using fit by simp
      show "?e = t + int (length src)" by simp
      show "length (replicate (nat (?e - t)) (0::byte)) = length src" by simp
      show "\<forall>i. int i < t - t \<and> i < length src \<longrightarrow>
          replicate (nat (?e - t)) (0::byte) ! i = src ! i" by simp
    qed
    then obtain s' where
      "sliceLoop t ?e t (replicate (nat (?e - t)) 0) ?s1 = Some (Inr src, s')" by blast
    then have "slice s t ?e = Some (Inr src, s')"
      using guard has cp False by (simp add: slice_def Let_def)
    then show ?thesis by blast
  qed
qed


section \<open>VirtualLRUBuffer: the round trip and the failing copy\<close>

lemma empty_write_state:
  "copyFrom (newVirtualLRUBuffer 2 None None) [] 0 = Some (Inr (), newVirtualLRUBuffer 2 None None)"
  by (simp add: newVirtualLRUBuffer_def copyFrom_def copyFromLoop.simps mkRange_def
      simplify_def unify_def kMaxLength_def)

lemma slice_after_spanning_write:
  "slice \<lparr>byteLength = 2, blocks = (\<lambda>_. None)(1 \<mapsto> [2]), blockSize = 1,
          numberOfBlocks = enat 1, lastAccessedBlockIndices = [1],
          rangesWithData = [mkRange 0 2]\<rparr> 0 2 =
     Some (Inr [0, 0],
       \<lparr>byteLength = 2, blocks = (\<lambda>_. None)(1 \<mapsto> [0]), blockSize = 1,
        numberOfBlocks = enat 1, lastAccessedBlockIndices = [1],
        rangesWithData = []\<rparr>)"
  by (simp add: slice_def sliceLoop.simps calculatePosition_def hasData_def isBefore_def
      isDuring_def getBlock_def Let_def newBlockSize_def copy_def mkRange_def simplify_def
      unify_def substract_def substractOne_def kMaxLength_def one_enat_def fun_upd_twist
      numeral_2_eq_2)

text \<open>
  C9, as stated, fails on the code in two ways. A write that spans more blocks than may be
  resident evicts its own first block (the comment in \<open>copyFrom\<close> announces this eviction),
  and the slice that follows returns zeros from a freshly allocated block; and for an empty
  source the slice of the empty range is refused by the guard \<open>size <= 0\<close>.
\<close>

theorem roundtrip_counterexample:
  "(case copyFrom (newVirtualLRUBuffer 2 (Some 1) (Some 1)) [1, 2] 0 of
      Some (Inr u, s1) \<Rightarrow>
        (case slice s1 0 2 of
           Some (Inr bytes, s2) \<Rightarrow> bytes = [0, 0] \<and> bytes \<noteq> [1, 2]
         | _ \<Rightarrow> False)
    | _ \<Rightarrow> False) \<and>
   (case copyFrom (newVirtualLRUBuffer 2 None None) [] 0 of
      Some (Inr u, s1) \<Rightarrow> slice s1 0 0 = Some (Inl SliceInvalidInput, s1)
    | _ \<Rightarrow> False)"
  by (simp only: spanning_write_state empty_write_state slice_after_spanning_write
        option.case prod.case sum.case)
     (simp add: slice_def)

text \<open>
  C9, amended. In a well-formed buffer, for a non-empty source of at most \<open>kMaxLength\<close>
  bytes written at an in-bounds offset, when the write touches no more blocks than the
  configured number of blocks: the copy succeeds, and slicing the written range right
  afterwards returns the source byte for byte.
\<close>

theorem write_then_slice_roundtrip:
  assumes wf: "wellFormed s"
    and t: "0 \<le> targetStart"
    and ne: "source \<noteq> []"
    and fit: "targetStart + int (length source) \<le> byteLength s"
    and small: "int (length source) \<le> kMaxLength"
    and cap: "enat (blocksTouched s targetStart (int (length source))) \<le> numberOfBlocks s"
  shows "\<exists>s1 s2. copyFrom s source targetStart = Some (Inr (), s1) \<and>
           slice s1 targetStart (targetStart + int (length source)) = Some (Inr source, s2)"
proof -
  let ?e = "targetStart + int (length source)"
  let ?rng = "mkRange targetStart ?e"
  have len: "0 < int (length source)" using ne by simp
  have tlt: "targetStart < byteLength s" using fit len by linarith
  have "\<exists>s'. copyFromLoop source targetStart ?e targetStart s = Some (Inr (), s') \<and>
      wellFormed s' \<and> byteLength s' = byteLength s \<and> blockSize s' = blockSize s \<and>
      numberOfBlocks s' = numberOfBlocks s \<and>
      (\<forall>j. targetStart \<le> j \<and> j < ?e \<longrightarrow>
           byteAt s' j = Some (source ! nat (j - targetStart)))"
  proof (rule copyFromLoop_complete
      [where kc = "targetStart div blockSize s" and pre = "lastAccessedBlockIndices s"])
    show "wellFormed s" by (rule wf)
    show "?e = targetStart + int (length source)" by simp
    show "0 \<le> targetStart" by (rule t)
    show "targetStart \<le> targetStart" by simp
    show "?e \<le> byteLength s" by (rule fit)
    show "lastAccessedBlockIndices s = lastAccessedBlockIndices s @
        [targetStart div blockSize s .. targetStart div blockSize s - 1]" by simp
    show "targetStart div blockSize s \<le> targetStart div blockSize s" by simp
    show "targetStart < ?e \<longrightarrow> targetStart div blockSize s = targetStart div blockSize s \<and>
        (targetStart = targetStart \<or>
         targetStart = targetStart div blockSize s * blockSize s)" by simp
    show "enat (blocksTouched s targetStart (int (length source))) \<le> numberOfBlocks s"
      by (rule cap)
    show "\<forall>j. targetStart \<le> j \<and> j < targetStart \<and> j < ?e \<longrightarrow>
        byteAt s j = Some (source ! nat (j - targetStart))" by auto
  qed
  then obtain sL where
    loop: "copyFromLoop source targetStart ?e targetStart s = Some (Inr (), sL)"
    and wfL: "wellFormed sL" and bl: "byteLength sL = byteLength s"
    and cont: "\<forall>j. targetStart \<le> j \<and> j < ?e \<longrightarrow>
        byteAt sL j = Some (source ! nat (j - targetStart))"
    by blast
  let ?s1 = "sL\<lparr>rangesWithData := simplify (unify [?rng] (rangesWithData sL))\<rparr>"
  have c: "copyFrom s source targetStart = Some (Inr (), ?s1)"
    using t tlt loop by (simp add: copyFrom_def Let_def mkRange_def)
  have wf1: "wellFormed ?s1" using wfL by (simp add: wellFormed_def newBlockSize_def)
  have ba: "byteAt ?s1 j = byteAt sL j" for j
    by (simp add: byteAt_def Let_def split: option.splits)
  have has: "hasData ?s1 targetStart ?e"
    using covered_after_unify [of ?rng "rangesWithData sL"] len
    by (simp add: hasData_def mkRange_def)
  have "\<exists>s2. slice ?s1 targetStart ?e = Some (Inr source, s2)"
  proof (rule slice_reads_content)
    show "wellFormed ?s1" by (rule wf1)
    show "\<forall>j. targetStart \<le> j \<and> j < ?e \<longrightarrow>
        byteAt ?s1 j = Some (source ! nat (j - targetStart))"
      using cont unfolding ba .
    show "0 \<le> targetStart" by (rule t)
    show "source \<noteq> []" by (rule ne)
    show "?e \<le> byteLength ?s1" using fit bl by simp
    show "int (length source) \<le> kMaxLength" by (rule small)
    show "hasData ?s1 targetStart ?e" by (rule has)
  qed
  then show ?thesis using c by blast
qed

theorem write_then_slice_roundtrip_witness:
  "wellFormed (newVirtualLRUBuffer 4 (Some 2) (Some 2)) \<and>
   blocksTouched (newVirtualLRUBuffer 4 (Some 2) (Some 2)) 1 3 = 2 \<and>
   (\<exists>s1 s2. copyFrom (newVirtualLRUBuffer 4 (Some 2) (Some 2)) [1, 2, 3] 1 = Some (Inr (), s1) \<and>
        slice s1 1 4 = Some (Inr [1, 2, 3], s2))"
proof -
  let ?b = "newVirtualLRUBuffer 4 (Some 2) (Some 2)"
  have wf: "wellFormed ?b" by (rule wellFormed_new) simp
  have bt: "blocksTouched ?b 1 3 = 2"
    by (simp add: blocksTouched_def newVirtualLRUBuffer_def)
  have cap: "enat (blocksTouched ?b 1 (int (length [1, 2, 3 :: byte]))) \<le> numberOfBlocks ?b"
    using bt by (simp add: newVirtualLRUBuffer_def)
  have "\<exists>s1 s2. copyFrom ?b [1, 2, 3] 1 = Some (Inr (), s1) \<and>
      slice s1 1 (1 + int (length [1, 2, 3 :: byte])) = Some (Inr [1, 2, 3], s2)"
    using wf cap
    by (intro write_then_slice_roundtrip) (simp_all add: newVirtualLRUBuffer_def kMaxLength_def)
  then show ?thesis using wf bt by simp
qed

lemma first_write_state:
  "copyFrom (newVirtualLRUBuffer 2 (Some 1) (Some 1)) [7] 0 =
     Some (Inr (),
       \<lparr>byteLength = 2, blocks = (\<lambda>_. None)(0 \<mapsto> [7]), blockSize = 1,
        numberOfBlocks = enat 1, lastAccessedBlockIndices = [0],
        rangesWithData = [mkRange 0 1]\<rparr>)"
  by (simp add: newVirtualLRUBuffer_def copyFrom_def copyFromLoop.simps calculatePosition_def
      getBlock_def Let_def newBlockSize_def copy_def mkRange_def simplify_def unify_def
      substract_def substractOne_def kMaxLength_def one_enat_def)

lemma failing_write_state:
  "copyFrom \<lparr>byteLength = 2, blocks = (\<lambda>_. None)(0 \<mapsto> [7]), blockSize = 1,
        numberOfBlocks = enat 1, lastAccessedBlockIndices = [0],
        rangesWithData = [mkRange 0 1]\<rparr> [1, 2] 1 =
     Some (Inl CalculatePositionInvalidInput,
       \<lparr>byteLength = 2, blocks = (\<lambda>_. None)(1 \<mapsto> [1]), blockSize = 1,
        numberOfBlocks = enat 1, lastAccessedBlockIndices = [1],
        rangesWithData = []\<rparr>)"
  by (simp add: copyFrom_def copyFromLoop.simps calculatePosition_def
      getBlock_def Let_def newBlockSize_def copy_def mkRange_def simplify_def unify_def
      substract_def substractOne_def kMaxLength_def one_enat_def fun_upd_twist)

text \<open>
  C10, as stated, fails on the code: a copy that throws in the middle has already called
  \<open>#getBlock\<close>, which evicts blocks and removes their ranges. With one block resident and
  \<open>[0, 1)\<close> filled, copying two bytes at offset 1 of a two-byte buffer throws after block 0
  has been evicted, and the filled set is empty afterwards.
\<close>

theorem copyFrom_throw_changes_filled:
  "(case copyFrom (newVirtualLRUBuffer 2 (Some 1) (Some 1)) [7] 0 of
      Some (Inr u, s1) \<Rightarrow>
        getRangesWithData s1 = [mkRange 0 1] \<and>
        (case copyFrom s1 [1, 2] 1 of
           Some (Inl e, s2) \<Rightarrow>
             e = CalculatePositionInvalidInput \<and> getRangesWithData s2 = [] \<and>
             getRangesWithData s2 \<noteq> getRangesWithData s1
         | _ \<Rightarrow> False)
    | _ \<Rightarrow> False)"
  by (simp only: first_write_state failing_write_state option.case prod.case sum.case)
     (simp add: getRangesWithData_def mkRange_def)

text \<open>
  C10, amended. \<open>copyFrom\<close> throws at once, leaving the buffer untouched, when
  \<open>targetStart\<close> is negative or not below the logical size. In a well-formed buffer it also
  throws when \<open>targetStart\<close> is in range and the source extends past the logical size; then
  the written range is not recorded: the filled bytes afterwards are among the filled bytes
  before (ranges of blocks evicted by the partial copy are removed), and the filled ranges
  are unchanged when the number of blocks is unbounded.
\<close>

theorem copyFrom_throws_without_recording:
  "(targetStart < 0 \<or> byteLength s \<le> targetStart \<longrightarrow>
      copyFrom s source targetStart = Some (Inl CopyFromInvalidInput, s)) \<and>
   (wellFormed s \<and> 0 \<le> targetStart \<and> targetStart < byteLength s \<and>
    byteLength s < targetStart + int (length source) \<longrightarrow>
      (\<exists>err s'. copyFrom s source targetStart = Some (Inl err, s') \<and>
         bytesOf (getRangesWithData s') \<subseteq> bytesOf (getRangesWithData s) \<and>
         (numberOfBlocks s = \<infinity> \<longrightarrow> getRangesWithData s' = getRangesWithData s)))"
proof (intro conjI impI)
  assume "targetStart < 0 \<or> byteLength s \<le> targetStart"
  then show "copyFrom s source targetStart = Some (Inl CopyFromInvalidInput, s)"
    by (auto simp: copyFrom_def)
next
  assume a: "wellFormed s \<and> 0 \<le> targetStart \<and> targetStart < byteLength s \<and>
    byteLength s < targetStart + int (length source)"
  then have "\<exists>err s'. copyFromLoop source targetStart (targetStart + int (length source))
        targetStart s = Some (Inl err, s') \<and>
      bytesOf (rangesWithData s') \<subseteq> bytesOf (rangesWithData s) \<and>
      (numberOfBlocks s = \<infinity> \<longrightarrow> rangesWithData s' = rangesWithData s)"
    by (intro copyFromLoop_past_end) simp_all
  then show "\<exists>err s'. copyFrom s source targetStart = Some (Inl err, s') \<and>
         bytesOf (getRangesWithData s') \<subseteq> bytesOf (getRangesWithData s) \<and>
         (numberOfBlocks s = \<infinity> \<longrightarrow> getRangesWithData s' = getRangesWithData s)"
  proof (elim exE conjE)
    fix err s'
    assume r: "copyFromLoop source targetStart (targetStart + int (length source)) targetStart s
        = Some (Inl err, s')"
      "bytesOf (rangesWithData s') \<subseteq> bytesOf (rangesWithData s)"
      "numberOfBlocks s = \<infinity> \<longrightarrow> rangesWithData s' = rangesWithData s"
    have c: "copyFrom s source targetStart = Some (Inl err, s')"
      using a r(1) by (simp add: copyFrom_def Let_def mkRange_def)
    show ?thesis
      using c r(2,3) unfolding getRangesWithData_def
      by (intro exI [of _ err] exI [of _ s'] conjI)
  qed
qed

theorem copyFrom_throws_without_recording_witness:
  "copyFrom (newVirtualLRUBuffer 2 None None) [9] (- 1)
     = Some (Inl CopyFromInvalidInput, newVirtualLRUBuffer 2 None None) \<and>
   wellFormed (newVirtualLRUBuffer 2 None None) \<and>
   (\<exists>err s'. copyFrom (newVirtualLRUBuffer 2 None None) [1, 2] 1 = Some (Inl err, s') \<and>
      getRangesWithData s' = getRangesWithData (newVirtualLRUBuffer 2 None None))"
proof -
  let ?b = "newVirtualLRUBuffer 2 None None"
  have wf: "wellFormed ?b" by (rule wellFormed_new) simp
  have inf: "numberOfBlocks ?b = \<infinity>" by (simp add: newVirtualLRUBuffer_def)
  have bl: "byteLength ?b = 2" by (simp add: newVirtualLRUBuffer_def)
  have a: "copyFrom ?b [9] (- 1) = Some (Inl CopyFromInvalidInput, ?b)"
    using copyFrom_throws_without_recording [of "- 1" ?b "[9]"] bl by simp
  have "\<exists>err s'. copyFrom ?b [1, 2] 1 = Some (Inl err, s') \<and>
         bytesOf (getRangesWithData s') \<subseteq> bytesOf (getRangesWithData ?b) \<and>
         (numberOfBlocks ?b = \<infinity> \<longrightarrow> getRangesWithData s' = getRangesWithData ?b)"
    using copyFrom_throws_without_recording [of 1 ?b "[1, 2]"] wf bl by simp
  then have "\<exists>err s'. copyFrom ?b [1, 2] 1 = Some (Inl err, s') \<and>
      getRangesWithData s' = getRangesWithData ?b"
    using inf by blast
  then show ?thesis using a wf by simp
qed


section \<open>CachedFilelike: argument checks of read, and the hard failure\<close>

lemma openedFile_fileSize: "fileSize openedFile = Some 1000"
  by (simp add: openedFile_def open_cf_def newCachedFilelike_def)

text \<open>
  C3, as stated, fails on the code: \<open>read\<close> handles the zero-length read before it looks
  at the offset, so \<open>read(-5, 0)\<close> on an opened file resolves with the empty byte
  sequence and is not rejected.
\<close>

theorem read_negative_offset_zero_length:
  "fileSize openedFile = Some 1000 \<and>
   read_cf requestFirstMissing (Inr 1000) 0 openedFile (- 5) 0
     = Some (Settled (Resolved []), openedFile)"
  by (simp add: openedFile_fileSize read_cf_def)

text \<open>
  C3, amended. On an opened file, \<open>read(offset, length)\<close> returns the empty byte sequence
  at once when \<open>length = 0\<close>, whatever the offset; when \<open>length\<close> is not 0 the call is
  rejected whenever \<open>offset < 0\<close>, or \<open>length < 0\<close>, or \<open>length\<close> exceeds the cache size,
  or \<open>offset + length\<close> exceeds the file size. The cache is left as it was.
\<close>

theorem read_argument_checks:
  assumes opened: "fileSize s = Some n"
  shows "(len = 0 \<longrightarrow> read_cf gnc readerOpen now s offset len = Some (Settled (Resolved []), s)) \<and>
         (len \<noteq> 0 \<and> (offset < 0 \<or> len < 0 \<or> cacheSizeInBytes s < enat (nat len) \<or>
                     n < offset + len) \<longrightarrow>
            (\<exists>e. read_cf gnc readerOpen now s offset len = Some (Settled (Rejected e), s)))"
proof (intro conjI impI)
  assume "len = 0"
  then show "read_cf gnc readerOpen now s offset len = Some (Settled (Resolved []), s)"
    by (simp add: read_cf_def)
next
  assume a: "len \<noteq> 0 \<and> (offset < 0 \<or> len < 0 \<or> cacheSizeInBytes s < enat (nat len) \<or>
      n < offset + len)"
  have op: "open_cf readerOpen s = (Inr (), s)" using opened by (simp add: open_cf_def)
  show "\<exists>e. read_cf gnc readerOpen now s offset len = Some (Settled (Rejected e), s)"
  proof (cases "offset < 0 \<or> len < 0")
    case True
    then show ?thesis using a by (simp add: read_cf_def Let_def)
  next
    case valid: False
    show ?thesis
    proof (cases "cacheSizeInBytes s < enat (nat len)")
      case True
      then show ?thesis using a valid by (simp add: read_cf_def Let_def)
    next
      case False
      then have big: "n < offset + len" using a valid by simp
      show ?thesis
      proof (cases "n = 0")
        case True
        then show ?thesis
          using a valid False op opened by (simp add: read_cf_def Let_def size_cf_def)
      next
        case nz: False
        then show ?thesis
          using a valid False op opened big
          by (simp add: read_cf_def Let_def size_cf_def mkRange_def)
      qed
    qed
  qed
qed

theorem read_argument_checks_witness:
  "fileSize openedFile = Some 1000 \<and>
   read_cf requestFirstMissing (Inr 1000) 0 openedFile 7 0
     = Some (Settled (Resolved []), openedFile) \<and>
   (\<exists>e. read_cf requestFirstMissing (Inr 1000) 0 openedFile (- 1) 10
          = Some (Settled (Rejected e), openedFile)) \<and>
   (\<exists>e. read_cf requestFirstMissing (Inr 1000) 0 openedFile 995 10
          = Some (Settled (Rejected e), openedFile))"
  using read_argument_checks [OF openedFile_fileSize, where len = 0 and offset = 7
      and gnc = requestFirstMissing and readerOpen = "Inr 1000" and now = 0]
    read_argument_checks [OF openedFile_fileSize, where len = 10 and offset = "- 1"
      and gnc = requestFirstMissing and readerOpen = "Inr 1000" and now = 0]
    read_argument_checks [OF openedFile_fileSize, where len = 10 and offset = 995
      and gnc = requestFirstMissing and readerOpen = "Inr 1000" and now = 0]
  by (simp add: openedFile_fileSize)








section \<open>The player: emissions, tick, close and seek\<close>

lemma emitStateImpl_listener:
  "listener s \<Longrightarrow>
   emitStateImpl s =
     s\<lparr>messages := [],
       emitted := emitted s @
         [\<lparr>ps_state = state s, ps_presence = presence s, ps_messages = messages s,
           ps_currentTime = currentTime s, ps_startTime = startTime s,
           ps_endTime = endTime s, ps_isPlaying = isPlaying s, ps_speed = speed s,
           ps_topics = topics s\<rparr>]\<rparr>"
  by (simp add: emitStateImpl_def Let_def)

lemma emitStateImpl_no_listener: "\<not> listener s \<Longrightarrow> emitStateImpl s = s"
  by (simp add: emitStateImpl_def)

lemma listener_emitStateImpl: "listener (emitStateImpl s) = listener s"
  by (cases "listener s") (simp_all add: emitStateImpl_listener emitStateImpl_no_listener)

lemma delivered_emitStateImpl:
  "listener s \<Longrightarrow>
   deliveredMessages (emitStateImpl s) = deliveredMessages s @ messages s \<and>
   messages (emitStateImpl s) = []"
  by (simp add: emitStateImpl_listener deliveredMessages_def)

lemma delivered_distinct_run:
  "listener s \<Longrightarrow> distinct (deliveredMessages s @ messages s @ assignedMessages ops) \<Longrightarrow>
   distinct (deliveredMessages (applyBufferOps ops s) @ messages (applyBufferOps ops s))"
proof (induction ops arbitrary: s)
  case Nil
  then show ?case by simp
next
  case (Cons op ops)
  show ?case
  proof (cases op)
    case (AssignMessages batch)
    let ?s = "s\<lparr>messages := batch\<rparr>"
    have d: "deliveredMessages ?s = deliveredMessages s" by (simp add: deliveredMessages_def)
    have "distinct (deliveredMessages ?s @ messages ?s @ assignedMessages ops)"
      using Cons.prems(2) AssignMessages unfolding d by auto
    moreover have "listener ?s" using Cons.prems(1) by simp
    ultimately show ?thesis using Cons.IH [of ?s] AssignMessages by simp
  next
    case EmitState
    let ?s = "emitStateImpl s"
    have "distinct (deliveredMessages ?s @ messages ?s @ assignedMessages ops)"
      using Cons.prems EmitState delivered_emitStateImpl [of s] by simp
    moreover have "listener ?s" using Cons.prems(1) by (simp add: listener_emitStateImpl)
    ultimately show ?thesis using Cons.IH [of ?s] EmitState by simp
  qed
qed

text \<open>
  C7. With a listener set, an emission calls the listener with exactly the accumulated
  messages and leaves the buffer empty, before anything else can run. Hence, over any
  sequence of batch assignments and emissions in which no message is assigned twice, no
  message is delivered twice, neither within one emission nor in two.
\<close>

theorem emission_drains_messages:
  "(listener s \<longrightarrow>
      emitted (emitStateImpl s) = emitted s @ [last (emitted (emitStateImpl s))] \<and>
      ps_messages (last (emitted (emitStateImpl s))) = messages s \<and>
      messages (emitStateImpl s) = [] \<and>
      ps_messages (last (emitted (emitStateImpl (emitStateImpl s)))) = []) \<and>
   (listener s \<and> distinct (deliveredMessages s @ messages s @ assignedMessages ops) \<longrightarrow>
      distinct (deliveredMessages (applyBufferOps ops s)))"
proof (intro conjI impI)
  assume l: "listener s"
  show "emitted (emitStateImpl s) = emitted s @ [last (emitted (emitStateImpl s))]"
    using l by (simp add: emitStateImpl_listener)
  show "ps_messages (last (emitted (emitStateImpl s))) = messages s"
    using l by (simp add: emitStateImpl_listener)
  show "messages (emitStateImpl s) = []"
    using l by (simp add: emitStateImpl_listener)
  have "listener (emitStateImpl s)" using l by (simp add: listener_emitStateImpl)
  then show "ps_messages (last (emitted (emitStateImpl (emitStateImpl s)))) = []"
    using l by (simp add: emitStateImpl_listener [of "emitStateImpl s"])
      (simp add: emitStateImpl_listener)
next
  assume "listener s \<and> distinct (deliveredMessages s @ messages s @ assignedMessages ops)"
  then have "distinct (deliveredMessages (applyBufferOps ops s) @ messages (applyBufferOps ops s))"
    by (intro delivered_distinct_run) simp_all
  then show "distinct (deliveredMessages (applyBufferOps ops s))" by simp
qed

theorem emission_drains_messages_witness:
  "listener (newRosbagPlayer\<lparr>listener := True, messages := [messageAt ''a'' 1]\<rparr>) \<and>
   ps_messages (last (emitted (emitStateImpl
      (newRosbagPlayer\<lparr>listener := True, messages := [messageAt ''a'' 1]\<rparr>))))
     = [messageAt ''a'' 1] \<and>
   messages (emitStateImpl (newRosbagPlayer\<lparr>listener := True, messages := [messageAt ''a'' 1]\<rparr>))
     = [] \<and>
   distinct (deliveredMessages (applyBufferOps
      [EmitState, EmitState, AssignMessages [messageAt ''a'' 2], EmitState]
      (newRosbagPlayer\<lparr>listener := True, messages := [messageAt ''a'' 1]\<rparr>)))"
proof -
  let ?s = "newRosbagPlayer\<lparr>listener := True, messages := [messageAt ''a'' 1]\<rparr>"
  let ?ops = "[EmitState, EmitState, AssignMessages [messageAt ''a'' 2], EmitState]"
  have l: "listener ?s" by simp
  have d: "distinct (deliveredMessages ?s @ messages ?s @ assignedMessages ?ops)"
    by (simp add: deliveredMessages_def newRosbagPlayer_def messageAt_def mkTime_def)
  show ?thesis
    using emission_drains_messages [of ?s ?ops] l d by simp
qed

lemma tick_playingAtTen:
  "tick playingAtTen =
     (Inr (),
      playingAtTen
        \<lparr>playbackIterator := Some [],
         messages := [],
         emitted :=
           [\<lparr>ps_state = Play, ps_presence = PRESENT,
             ps_messages = [messageAt ''a'' 20, messageAt ''a'' 50],
             ps_currentTime = Some (mkTime 10 0), ps_startTime = Some (mkTime 0 0),
             ps_endTime = Some (mkTime 100 0), ps_isPlaying = True, ps_speed = 1,
             ps_topics = []\<rparr>]\<rparr>)"
  by (simp add: tick_def playingAtTen_def newRosbagPlayer_def queueEmitState_def
      emitStateImpl_def orElse_def clampTime_def compare_def mkTime_def Let_def)

text \<open>
  C1 (code defect). The comment in \<open>tick\<close> says that the iterator is read through the end
  of the tick time, and \<open>stateStartPlay\<close> stops at the first message past its stop time,
  but the loop of \<open>tick\<close> never compares a receive time with the tick end: it drains the
  iterator. At current time \<open>(10, 0)\<close> the tick end is \<open>(10, 0)\<close>, and the messages received
  at \<open>(20, 0)\<close> and \<open>(50, 0)\<close> are installed and emitted all the same.
\<close>

theorem tick_installs_messages_past_tickEnd:
  "clampTime (mkTime 10 0) (mkTime 0 0) (mkTime 100 0) = mkTime 10 0 \<and>
   compare (receiveTime (messageAt ''a'' 20)) (mkTime 10 0) > 0 \<and>
   (case tick playingAtTen of
      (Inr u, s) \<Rightarrow>
        map ps_messages (emitted s) = [[messageAt ''a'' 20, messageAt ''a'' 50]] \<and>
        currentTime s = Some (mkTime 10 0) \<and> presence s = PRESENT \<and>
        playbackIterator s = Some []
    | (Inl e, s) \<Rightarrow> False)"
  by (simp only: tick_playingAtTen prod.case sum.case)
     (simp add: playingAtTen_def newRosbagPlayer_def clampTime_def compare_def mkTime_def
        messageAt_def)













section \<open>The bag adapter: backfill\<close>









end
